theory Spec2Isabelle
  imports Main "HOL-Library.Word"
begin

section \<open>The key system server: data model\<close>

text \<open>
  The server keeps one array \<open>keys\<close> of key objects in memory and writes the whole
  array to \<open>keys.json\<close> after every mutation. A key object as \<open>POST /gerar\<close> builds it
  has the fields \<open>key\<close>, \<open>used\<close>, \<open>createdAt\<close>, \<open>shortLink\<close> and \<open>originalLink\<close>;
  \<open>POST /validar\<close> adds \<open>usedAt\<close>. Objects read back from the file may lack any of the
  optional fields (the earlier drafts of the server wrote \<open>{key, used}\<close> only), so those
  fields are options. Time stamps are the integers \<open>Date.now()\<close> returns (milliseconds).
\<close>

record keyObject =
  key :: string
  used :: bool
  createdAt :: "int option"
  usedAt :: "int option"
  shortLink :: "string option"
  originalLink :: "string option"

text \<open>
  The state: the array \<open>keys\<close> and the contents of the file \<open>KEYS_FILE\<close>. Each handler
  is modelled as one step on this state; what the handler reads from outside (the clock,
  the random bytes, the answer of the shortener, whether the write to the file succeeds)
  is an explicit argument. Two handlers that interleave at an \<open>await\<close> are outside the
  model, and so are the start of the server (\<open>loadKeys\<close>), the log lines and the pages.
\<close>

record server =
  keys :: "keyObject list"
  keysFile :: "keyObject list"

definition empty_store :: server where
  "empty_store = \<lparr>keys = [], keysFile = []\<rparr>"

subsection \<open>JavaScript truthiness and \<open>String.prototype.trim\<close>\<close>

text \<open>
  \<open>!x\<close> holds for \<open>undefined\<close>, for the number \<open>0\<close> and for the empty string: a field that
  is present but \<open>0\<close> (or \<open>""\<close>) is treated by the handlers like an absent one.
\<close>

definition truthy_num :: "int option \<Rightarrow> bool" where
  "truthy_num v = (case v of None \<Rightarrow> False | Some n \<Rightarrow> n \<noteq> 0)"

definition truthy_str :: "string option \<Rightarrow> bool" where
  "truthy_str v = (case v of None \<Rightarrow> False | Some s \<Rightarrow> s \<noteq> [])"

text \<open>
  The white space and line terminator code units below 256 that \<open>trim\<close> removes: tab, line
  feed, vertical tab, form feed, carriage return, space and no-break space.
\<close>

definition isWhiteSpace :: "char \<Rightarrow> bool" where
  "isWhiteSpace c = (of_char c \<in> {9, 10, 11, 12, 13, 32, 160 :: nat})"

definition trim :: "string \<Rightarrow> string" where
  "trim s = rev (dropWhile isWhiteSpace (rev (dropWhile isWhiteSpace s)))"

subsection \<open>\<open>saveKeys\<close>\<close>

text \<open>
  \<open>saveKeys\<close> writes the array to the file; when \<open>fs.writeJson\<close> fails it throws
  \<open>Error('Falha ao salvar keys')\<close>. The flag says whether the write succeeds; a failed
  write is taken to leave the file as it was.
\<close>

datatype js_error =
    SaveError
  | AxiosError "string option" "nat option"

fun err_code :: "js_error \<Rightarrow> string option" where
  "err_code SaveError = None"
| "err_code (AxiosError c st) = c"

fun err_response_status :: "js_error \<Rightarrow> nat option" where
  "err_response_status SaveError = None"
| "err_response_status (AxiosError c st) = st"

definition saveKeys :: "bool \<Rightarrow> server \<Rightarrow> (js_error + unit) \<times> server" where
  "saveKeys writeOk s =
     (if writeOk then (Inr (), s\<lparr>keysFile := keys s\<rparr>) else (Inl SaveError, s))"

subsection \<open>\<open>generateKey\<close>\<close>

text \<open>
  \<open>Date.now().toString(36)\<close>, a dash, and the six random bytes in upper-case hexadecimal.
\<close>

definition digit36 :: "nat \<Rightarrow> char" where
  "digit36 d = (if d < 10 then char_of (48 + d) else char_of (87 + d))"

fun digits36 :: "nat \<Rightarrow> string" where
  "digits36 n = (if n < 36 then [digit36 n] else digits36 (n div 36) @ [digit36 (n mod 36)])"

declare digits36.simps [simp del]

definition toString36 :: "int \<Rightarrow> string" where
  "toString36 n = (if n < 0 then CHR ''-'' # digits36 (nat (- n)) else digits36 (nat n))"

definition hexDigit :: "nat \<Rightarrow> char" where
  "hexDigit d = (if d < 10 then char_of (48 + d) else char_of (87 + d))"

definition toHex :: "8 word list \<Rightarrow> string" where
  "toHex bs = concat (map (\<lambda>b. [hexDigit (unat b div 16), hexDigit (unat b mod 16)]) bs)"

definition toUpperCase :: "string \<Rightarrow> string" where
  "toUpperCase s =
     map (\<lambda>c. if 97 \<le> (of_char c :: nat) \<and> (of_char c :: nat) \<le> 122
               then char_of ((of_char c :: nat) - 32) else c) s"

definition generateKey :: "int \<Rightarrow> 8 word list \<Rightarrow> string" where
  "generateKey now bytes = toString36 now @ ''-'' @ toUpperCase (toHex bytes)"

subsection \<open>\<open>cleanExpiredKeys\<close>\<close>

text \<open>The callback of \<open>keys.filter\<close>: which key objects the sweep keeps.\<close>

definition keepKey :: "int \<Rightarrow> keyObject \<Rightarrow> bool" where
  "keepKey oneDayAgo keyObj =
     (if used keyObj then True
      else if \<not> truthy_num (createdAt keyObj) then True
      else (case createdAt keyObj of Some c \<Rightarrow> c > oneDayAgo | None \<Rightarrow> True))"

definition cleanExpiredKeys :: "int \<Rightarrow> bool \<Rightarrow> server \<Rightarrow> server" where
  "cleanExpiredKeys now writeOk s =
     (let oneDayAgo = now - 24 * 60 * 60 * 1000;
          initialCount = length (keys s);
          s1 = s\<lparr>keys := filter (keepKey oneDayAgo) (keys s)\<rparr>
      in if length (keys s1) \<noteq> initialCount then snd (saveKeys writeOk s1) else s1)"

subsection \<open>\<open>GET /status\<close>\<close>

record stats =
  total :: nat
  usedCount :: nat
  available :: nat

definition status :: "server \<Rightarrow> stats \<times> server" where
  "status s =
     (\<lparr>total = length (keys s),
       usedCount = length (filter (\<lambda>k. used k) (keys s)),
       available = length (filter (\<lambda>k. \<not> used k) (keys s))\<rparr>, s)"

subsection \<open>\<open>POST /gerar\<close>\<close>

text \<open>
  The configuration: the token of the environment, and \<open>isValidUrl\<close> (whether
  \<open>new URL(link)\<close> succeeds), which is left a parameter.
\<close>

record config =
  MONETIZZY_TOKEN :: string
  isValidUrl :: "string \<Rightarrow> bool"

text \<open>
  The body of a request: a field is \<open>None\<close> when it is absent. Values that are not strings
  are not modelled.
\<close>

record gerar_body =
  monetizzyToken :: "string option"
  link :: "string option"

text \<open>
  The outcome of \<open>axios.post\<close>: it resolves, and \<open>response.data?.shortened_url\<close> is read,
  or it rejects with an error that has a \<open>code\<close> and a \<open>response?.status\<close>.
\<close>

datatype axios_outcome =
    Resolved "string option"
  | Rejected "string option" "nat option"

text \<open>
  What one call of the handler reads from outside: the outcome of \<open>axios.post\<close>, the clock
  that \<open>generateKey\<close> reads, the bytes \<open>crypto.randomBytes(6)\<close> returns, the clock read for
  \<open>createdAt\<close>, and whether the write of \<open>saveKeys\<close> succeeds.
\<close>

record gerar_env =
  axios_post :: axios_outcome
  keyClock :: int
  randomBytes :: "8 word list"
  createdClock :: int
  saveOk :: bool

datatype gerar_error =
    TokenObrigatorio
  | TokenInvalido
  | LinkObrigatorio
  | UrlInvalida
  | ErroLinkEncurtado
  | TimeoutMonetizzy
  | TokenMonetizzyExpirado
  | ErroInternoGerar

text \<open>
  A reply is the success body with the key and the short link, or a status code with an
  error message. The time stamp strings of the replies are not modelled.
\<close>

datatype gerar_reply =
    Success string string
  | Failure nat gerar_error

definition catch_gerar :: "js_error \<Rightarrow> gerar_reply" where
  "catch_gerar err =
     (if err_code err = Some ''ECONNABORTED'' then Failure 408 TimeoutMonetizzy
      else if err_response_status err = Some 401 then Failure 401 TokenMonetizzyExpirado
      else Failure 500 ErroInternoGerar)"

definition gerar :: "config \<Rightarrow> gerar_body \<Rightarrow> gerar_env \<Rightarrow> server \<Rightarrow> gerar_reply \<times> server" where
  "gerar cfg body env s =
     (if \<not> truthy_str (monetizzyToken body) then (Failure 400 TokenObrigatorio, s)
      else if monetizzyToken body \<noteq> Some (MONETIZZY_TOKEN cfg) then (Failure 403 TokenInvalido, s)
      else (case link body of
          None \<Rightarrow> (Failure 400 LinkObrigatorio, s)
        | Some l \<Rightarrow>
            if l = [] then (Failure 400 LinkObrigatorio, s)
            else if \<not> isValidUrl cfg l then (Failure 400 UrlInvalida, s)
            else (case axios_post env of
                Rejected c st \<Rightarrow> (catch_gerar (AxiosError c st), s)
              | Resolved None \<Rightarrow> (Failure 400 ErroLinkEncurtado, s)
              | Resolved (Some shortened_url) \<Rightarrow>
                  if shortened_url = [] then (Failure 400 ErroLinkEncurtado, s)
                  else
                    (let k = generateKey (keyClock env) (randomBytes env);
                         keyObj = \<lparr>key = k, used = False,
                                   createdAt = Some (createdClock env), usedAt = None,
                                   shortLink = Some shortened_url,
                                   originalLink = Some (trim l)\<rparr>;
                         s1 = s\<lparr>keys := keys s @ [keyObj]\<rparr>
                     in (case saveKeys (saveOk env) s1 of
                           (Inl err, s2) \<Rightarrow> (catch_gerar err, s2)
                         | (Inr u, s2) \<Rightarrow> (Success k shortened_url, s2))))))"

subsection \<open>\<open>POST /validar\<close>\<close>

datatype validar_message =
    KeyObrigatoria
  | KeyNaoEncontrada
  | KeyJaUtilizada
  | KeyExpirada
  | KeyValida
  | ErroInternoValidar

text \<open>A reply: the status code, the field \<open>valid\<close> and the message.\<close>

datatype validar_reply = Reply nat bool validar_message

text \<open>
  \<open>keys.find\<close> returns a reference to the first object that matches, which the handler
  then mutates in place: the model finds its index and updates the array there.
\<close>

fun findIndex :: "('a \<Rightarrow> bool) \<Rightarrow> 'a list \<Rightarrow> nat option" where
  "findIndex p [] = None"
| "findIndex p (x # xs) = (if p x then Some 0 else map_option Suc (findIndex p xs))"

text \<open>The expiry test: \<open>found.createdAt && (Date.now() - found.createdAt) > 24h\<close>.\<close>

definition isExpired :: "int \<Rightarrow> keyObject \<Rightarrow> bool" where
  "isExpired now found =
     (truthy_num (createdAt found) \<and>
      (case createdAt found of Some c \<Rightarrow> now - c > 24 * 60 * 60 * 1000 | None \<Rightarrow> False))"

text \<open>
  The handler, given the field \<open>key\<close> of the body, the clock read by the expiry test, the
  clock read for \<open>usedAt\<close>, and whether the write of \<open>saveKeys\<close> succeeds.
\<close>

definition validar :: "string option \<Rightarrow> int \<Rightarrow> int \<Rightarrow> bool \<Rightarrow> server \<Rightarrow> validar_reply \<times> server" where
  "validar body_key checkClock usedClock writeOk s =
     (case body_key of
        None \<Rightarrow> (Reply 400 False KeyObrigatoria, s)
      | Some k \<Rightarrow>
          if k = [] then (Reply 400 False KeyObrigatoria, s)
          else (case findIndex (\<lambda>x. key x = trim k) (keys s) of
              None \<Rightarrow> (Reply 404 False KeyNaoEncontrada, s)
            | Some i \<Rightarrow>
                (let found = keys s ! i in
                 if used found then (Reply 200 False KeyJaUtilizada, s)
                 else if isExpired checkClock found then (Reply 200 False KeyExpirada, s)
                 else
                   (let s1 = s\<lparr>keys := (keys s)[i := found\<lparr>used := True, usedAt := Some usedClock\<rparr>]\<rparr>
                    in (case saveKeys writeOk s1 of
                          (Inl err, s2) \<Rightarrow> (Reply 500 False ErroInternoValidar, s2)
                        | (Inr u, s2) \<Rightarrow> (Reply 200 True KeyValida, s2))))))"

subsection \<open>Runs of the server\<close>

text \<open>
  An event is one request or one run of the hourly sweep, with everything it reads from
  outside. \<open>clock_reads\<close> lists the readings of \<open>Date.now()\<close> an event makes, in order.
\<close>

datatype event =
    Gerar gerar_body gerar_env
  | Validar "string option" int int bool
  | Sweep int bool

fun step :: "config \<Rightarrow> event \<Rightarrow> server \<Rightarrow> server" where
  "step cfg (Gerar body env) s = snd (gerar cfg body env s)"
| "step cfg (Validar body_key checkClock usedClock writeOk) s =
     snd (validar body_key checkClock usedClock writeOk s)"
| "step cfg (Sweep now writeOk) s = cleanExpiredKeys now writeOk s"

fun run :: "config \<Rightarrow> event list \<Rightarrow> server \<Rightarrow> server" where
  "run cfg [] s = s"
| "run cfg (e # es) s = run cfg es (step cfg e s)"

fun clock_reads :: "event \<Rightarrow> int list" where
  "clock_reads (Gerar body env) = [keyClock env, createdClock env]"
| "clock_reads (Validar body_key checkClock usedClock writeOk) = [checkClock, usedClock]"
| "clock_reads (Sweep now writeOk) = [now]"

text \<open>
  Nothing in \<open>POST /gerar\<close> compares a new key with the keys of the array: a key is
  a function of the clock reading and the random bytes. \<open>draws\<close> lists, for a run, the
  clock reading and the random bytes of each issue that stored a key object, in order;
  \<open>keyOf\<close> is the key made of such a pair.
\<close>

fun draws :: "config \<Rightarrow> event list \<Rightarrow> server \<Rightarrow> (int \<times> 8 word list) list" where
  "draws cfg [] s = []"
| "draws cfg (e # es) s =
     (case e of
        Gerar body env \<Rightarrow>
          if keys (step cfg e s) = keys s then [] else [(keyClock env, randomBytes env)]
      | Validar body_key checkClock usedClock writeOk \<Rightarrow> []
      | Sweep now writeOk \<Rightarrow> []) @
     draws cfg es (step cfg e s)"

definition keyOf :: "int \<times> 8 word list \<Rightarrow> string" where
  "keyOf p = generateKey (fst p) (snd p)"

text \<open>
  The invariant behind the time stamps of a run: a key object has a \<open>createdAt\<close> that no
  later clock reading \<open>ts\<close> precedes; if it is used, it has a \<open>usedAt\<close> that is not before
  \<open>createdAt\<close>, and if it is unused it has no \<open>usedAt\<close>.
\<close>

definition stamped :: "int list \<Rightarrow> keyObject \<Rightarrow> bool" where
  "stamped ts r =
     (case createdAt r of
        None \<Rightarrow> False
      | Some c \<Rightarrow> list_all (\<lambda>t. c \<le> t) ts \<and>
          (if used r then (case usedAt r of None \<Rightarrow> False | Some u \<Rightarrow> c \<le> u)
           else usedAt r = None))"

section \<open>Example states\<close>

text \<open>
  Key objects and a store to run the handlers on: a used key, an unused key created at
  time 1000, an unused key created at time 90000000, and an unused key whose \<open>createdAt\<close>
  is the number 0.
\<close>

definition exUsed :: keyObject where
  "exUsed = \<lparr>key = ''k-used'', used = True, createdAt = Some 1000, usedAt = Some 2000,
             shortLink = None, originalLink = None\<rparr>"

definition exOld :: keyObject where
  "exOld = \<lparr>key = ''k-old'', used = False, createdAt = Some 1000, usedAt = None,
            shortLink = None, originalLink = None\<rparr>"

definition exFresh :: keyObject where
  "exFresh = \<lparr>key = ''k-new'', used = False, createdAt = Some 90000000, usedAt = None,
              shortLink = None, originalLink = None\<rparr>"

definition exZero :: keyObject where
  "exZero = \<lparr>key = ''k-zero'', used = False, createdAt = Some 0, usedAt = None,
             shortLink = None, originalLink = None\<rparr>"

definition exStore :: server where
  "exStore = \<lparr>keys = [exUsed, exOld, exFresh], keysFile = [exUsed, exOld, exFresh]\<rparr>"

text \<open>
  A request to \<open>POST /gerar\<close> that passes every check, and what it reads from outside:
  the shortener answers with a short link, the clock stands at 1000, and the write to the
  file succeeds.
\<close>

definition exCfg :: config where
  "exCfg = \<lparr>MONETIZZY_TOKEN = ''secret'', isValidUrl = (\<lambda>l. l = ''https://example.com/a'')\<rparr>"

definition exBody :: gerar_body where
  "exBody = \<lparr>monetizzyToken = Some ''secret'', link = Some ''https://example.com/a''\<rparr>"

definition exEnv :: gerar_env where
  "exEnv = \<lparr>axios_post = Resolved (Some ''https://ufly.monetizzy.com/abc''), keyClock = 1000,
            randomBytes = [0x0A, 0xFF, 0x10, 0x9C, 0x00, 0x7B], createdClock = 1000,
            saveOk = True\<rparr>"

definition exKey :: string where
  "exKey = generateKey 1000 [0x0A, 0xFF, 0x10, 0x9C, 0x00, 0x7B]"

definition exIssued :: keyObject where
  "exIssued = \<lparr>key = exKey, used = False, createdAt = Some 1000, usedAt = None,
               shortLink = Some ''https://ufly.monetizzy.com/abc'',
               originalLink = Some ''https://example.com/a''\<rparr>"

text \<open>A second issue, one millisecond later, and the key object it stores.\<close>

definition exEnv2 :: gerar_env where
  "exEnv2 = exEnv\<lparr>keyClock := 1001, createdClock := 1001\<rparr>"

definition exKey2 :: string where
  "exKey2 = generateKey 1001 [0x0A, 0xFF, 0x10, 0x9C, 0x00, 0x7B]"

definition exIssued2 :: keyObject where
  "exIssued2 = \<lparr>key = exKey2, used = False, createdAt = Some 1001, usedAt = None,
               shortLink = Some ''https://ufly.monetizzy.com/abc'',
               originalLink = Some ''https://example.com/a''\<rparr>"

section \<open>Auxiliary facts\<close>

subsection \<open>Finding the first match\<close>

lemma findIndex_None_iff: "findIndex p xs = None \<longleftrightarrow> (\<forall>x\<in>set xs. \<not> p x)"
  by (induction xs) auto

lemma findIndex_first:
  "(\<forall>x\<in>set pre. \<not> p x) \<Longrightarrow> p r \<Longrightarrow> findIndex p (pre @ r # post) = Some (length pre)"
  by (induction pre) auto

lemma findIndex_Some:
  "findIndex p xs = Some i \<Longrightarrow> i < length xs \<and> p (xs ! i) \<and> (\<forall>x\<in>set (take i xs). \<not> p x)"
proof (induction xs arbitrary: i)
  case Nil
  then show ?case by simp
next
  case (Cons x xs)
  show ?case
  proof (cases "p x")
    case True
    with Cons.prems show ?thesis by simp
  next
    case False
    with Cons.prems obtain j where j: "findIndex p xs = Some j" "i = Suc j"
      by auto
    with Cons.IH [OF j(1)] False show ?thesis by simp
  qed
qed

subsection \<open>Trimming\<close>

lemma trim_Nil: "trim [] = []"
  by (simp add: trim_def)

lemma trim_neq_NilD: "trim k \<noteq> [] \<Longrightarrow> k \<noteq> []"
  by (auto simp: trim_def)

lemma dropWhile_hd_id: "xs \<noteq> [] \<Longrightarrow> \<not> P (hd xs) \<Longrightarrow> dropWhile P xs = xs"
  by (cases xs) auto

lemma trim_fixed:
  assumes "s \<noteq> []" "\<not> isWhiteSpace (hd s)" "\<not> isWhiteSpace (last s)"
  shows "trim s = s"
proof -
  have a: "dropWhile isWhiteSpace s = s"
    using assms(1,2) by (rule dropWhile_hd_id)
  have "rev s \<noteq> []" "\<not> isWhiteSpace (hd (rev s))"
    using assms(1,3) by (simp_all add: hd_rev)
  then have b: "dropWhile isWhiteSpace (rev s) = rev s"
    by (rule dropWhile_hd_id)
  show ?thesis by (simp add: trim_def a b)
qed

lemma trim_ends:
  "trim s \<noteq> [] \<Longrightarrow> \<not> isWhiteSpace (hd (trim s)) \<and> \<not> isWhiteSpace (last (trim s))"
proof -
  assume ne: "trim s \<noteq> []"
  let ?a = "dropWhile isWhiteSpace s"
  let ?b = "dropWhile isWhiteSpace (rev ?a)"
  have t: "trim s = rev ?b" by (simp add: trim_def)
  from ne t have bne: "?b \<noteq> []" by simp
  then have "\<not> isWhiteSpace (hd ?b)" by (rule hd_dropWhile)
  then have l: "\<not> isWhiteSpace (last (trim s))"
    using bne by (simp add: t last_rev)
  have ane: "?a \<noteq> []"
    using bne by (metis dropWhile.simps(1) rev.simps(1))
  then have ha: "\<not> isWhiteSpace (hd ?a)" by (rule hd_dropWhile)
  have "\<exists>zs. rev ?a = zs @ ?b"
    by (metis takeWhile_dropWhile_id)
  then obtain zs where "rev ?a = zs @ ?b" ..
  then have "?a = rev ?b @ rev zs"
    by (metis rev_append rev_rev_ident)
  with bne have "hd ?a = hd (rev ?b)"
    by (metis hd_append2 rev_is_Nil_conv)
  with ha t have "\<not> isWhiteSpace (hd (trim s))" by simp
  with l show ?thesis by simp
qed

lemma trim_idem: "trim (trim s) = trim s"
proof (cases "trim s = []")
  case True
  then show ?thesis by (simp add: trim_Nil)
next
  case False
  then show ?thesis using trim_ends [OF False] by (intro trim_fixed) auto
qed

subsection \<open>Generated keys need no trimming\<close>

lemma digit36_not_space: "d < 36 \<Longrightarrow> \<not> isWhiteSpace (digit36 d)"
  by (auto simp: isWhiteSpace_def digit36_def)

lemma digits36_hd: "digits36 n \<noteq> [] \<and> \<not> isWhiteSpace (hd (digits36 n))"
proof (induction n rule: digits36.induct)
  case (1 n)
  show ?case
  proof (cases "n < 36")
    case True
    then show ?thesis by (simp add: digits36.simps [of n] digit36_not_space)
  next
    case False
    with 1 show ?thesis by (simp add: digits36.simps [of n])
  qed
qed

lemma toString36_hd: "toString36 t \<noteq> [] \<and> \<not> isWhiteSpace (hd (toString36 t))"
  using digits36_hd by (simp add: toString36_def isWhiteSpace_def)

lemma hexDigit_upper_not_space:
  "d < 16 \<Longrightarrow> c \<in> set (toUpperCase [hexDigit d]) \<Longrightarrow> \<not> isWhiteSpace c"
  by (auto simp: isWhiteSpace_def hexDigit_def toUpperCase_def)

lemma toHex_upper_not_space: "c \<in> set (toUpperCase (toHex bs)) \<Longrightarrow> \<not> isWhiteSpace c"
proof (induction bs)
  case Nil
  then show ?case by (simp add: toHex_def toUpperCase_def)
next
  case (Cons b bs)
  have "unat b < 2 ^ LENGTH(8)" by (rule unsigned_less)
  then have lt: "unat b div 16 < 16" "unat b mod 16 < 16"
    by (simp_all add: less_mult_imp_div_less)
  have "toUpperCase (toHex (b # bs)) =
          toUpperCase [hexDigit (unat b div 16)] @ toUpperCase [hexDigit (unat b mod 16)] @
          toUpperCase (toHex bs)"
    by (simp add: toHex_def toUpperCase_def)
  with Cons.prems have "c \<in> set (toUpperCase [hexDigit (unat b div 16)]) \<or>
             c \<in> set (toUpperCase [hexDigit (unat b mod 16)]) \<or>
             c \<in> set (toUpperCase (toHex bs))"
    by (simp only: set_append Un_iff)
  with lt Cons.IH show ?case
    by (blast dest: hexDigit_upper_not_space)
qed

lemma generateKey_trimmed:
  "generateKey t bs \<noteq> [] \<and> trim (generateKey t bs) = generateKey t bs"
proof -
  let ?k = "generateKey t bs"
  have ne: "?k \<noteq> []" by (simp add: generateKey_def)
  have h: "\<not> isWhiteSpace (hd ?k)"
    using toString36_hd [of t] by (simp add: generateKey_def)
  have "last ?k \<in> set (''-'' @ toUpperCase (toHex bs))"
    by (simp add: generateKey_def)
  then have "last ?k = CHR ''-'' \<or> last ?k \<in> set (toUpperCase (toHex bs))"
    by simp
  then have l: "\<not> isWhiteSpace (last ?k)"
    using toHex_upper_not_space by (auto simp: isWhiteSpace_def)
  from ne h l show ?thesis by (simp add: trim_fixed)
qed

subsection \<open>Different clock readings or random bytes give different keys\<close>

lemma digit36_code: "d < 36 \<Longrightarrow> (of_char (digit36 d) :: nat) = (if d < 10 then 48 + d else 87 + d)"
  by (simp add: digit36_def)

lemma digit36_inj: "d < 36 \<Longrightarrow> e < 36 \<Longrightarrow> digit36 d = digit36 e \<Longrightarrow> d = e"
proof -
  assume d: "d < 36" and e: "e < 36" and eq: "digit36 d = digit36 e"
  from eq have "(of_char (digit36 d) :: nat) = of_char (digit36 e)" by simp
  with d e show "d = e" by (simp add: digit36_code split: if_splits)
qed

lemma digit36_not_dash: "d < 36 \<Longrightarrow> digit36 d \<noteq> CHR ''-''"
proof
  assume d: "d < 36" and eq: "digit36 d = CHR ''-''"
  from eq have "(of_char (digit36 d) :: nat) = of_char (CHR ''-'')" by simp
  with d show False by (simp add: digit36_code split: if_splits)
qed

lemma digits36_hd_not_dash: "digits36 n \<noteq> [] \<and> hd (digits36 n) \<noteq> CHR ''-''"
proof (induction n rule: digits36.induct)
  case (1 n)
  show ?case
  proof (cases "n < 36")
    case True
    then show ?thesis by (simp add: digits36.simps [of n] digit36_not_dash)
  next
    case False
    with 1 show ?thesis by (simp add: digits36.simps [of n])
  qed
qed

lemma digits36_inj: "digits36 m = digits36 n \<Longrightarrow> m = n"
proof (induction m arbitrary: n rule: digits36.induct)
  case (1 m)
  have ne: "digits36 k \<noteq> []" for k using digits36_hd_not_dash [of k] by simp
  show ?case
  proof (cases "m < 36")
    case m: True
    show ?thesis
    proof (cases "n < 36")
      case True
      with m 1(2) show ?thesis
        by (simp add: digits36.simps [of m] digits36.simps [of n] digit36_inj)
    next
      case False
      with m 1(2) have "[digit36 m] = digits36 (n div 36) @ [digit36 (n mod 36)]"
        by (simp add: digits36.simps [of m] digits36.simps [of n])
      then have "digits36 (n div 36) = []" by simp
      with ne show ?thesis by simp
    qed
  next
    case m: False
    show ?thesis
    proof (cases "n < 36")
      case True
      with m 1(2) have "digits36 (m div 36) @ [digit36 (m mod 36)] = [digit36 n]"
        by (simp add: digits36.simps [of m] digits36.simps [of n])
      then have "digits36 (m div 36) = []" by simp
      with ne show ?thesis by simp
    next
      case False
      with m 1(2) have "digits36 (m div 36) @ [digit36 (m mod 36)] =
          digits36 (n div 36) @ [digit36 (n mod 36)]"
        by (simp add: digits36.simps [of m] digits36.simps [of n])
      then have a: "digits36 (m div 36) = digits36 (n div 36)"
        and b: "digit36 (m mod 36) = digit36 (n mod 36)"
        by simp_all
      from 1(1) [OF m a] have q: "m div 36 = n div 36" .
      from b have r: "m mod 36 = n mod 36" by (intro digit36_inj) simp_all
      from q r show ?thesis by (metis div_mult_mod_eq)
    qed
  qed
qed

lemma toString36_inj: "toString36 a = toString36 b \<Longrightarrow> a = b"
proof -
  assume eq: "toString36 a = toString36 b"
  have nd: "CHR ''-'' # xs \<noteq> digits36 k" for xs k
    using digits36_hd_not_dash [of k] by (cases "digits36 k") auto
  show "a = b"
  proof (cases "a < 0")
    case a: True
    show ?thesis
    proof (cases "b < 0")
      case True
      with a eq have "digits36 (nat (- a)) = digits36 (nat (- b))" by (simp add: toString36_def)
      then have "nat (- a) = nat (- b)" by (rule digits36_inj)
      with a True show ?thesis by simp
    next
      case False
      with a eq nd show ?thesis by (simp add: toString36_def)
    qed
  next
    case a: False
    show ?thesis
    proof (cases "b < 0")
      case True
      with a eq nd [of "digits36 (nat (- b))" "nat a"] show ?thesis by (simp add: toString36_def)
    next
      case False
      with a eq have "digits36 (nat a) = digits36 (nat b)" by (simp add: toString36_def)
      then have "nat a = nat b" by (rule digits36_inj)
      with a False show ?thesis by simp
    qed
  qed
qed

lemma upper_hexDigit: "d < 16 \<Longrightarrow> toUpperCase [hexDigit d] = [char_of (if d < 10 then 48 + d else 55 + d)]"
  by (simp add: toUpperCase_def hexDigit_def)

lemma toHex_upper_Cons:
  "toUpperCase (toHex (b # bs)) =
     char_of (if unat b div 16 < 10 then 48 + unat b div 16 else 55 + unat b div 16) #
     char_of (if unat b mod 16 < 10 then 48 + unat b mod 16 else 55 + unat b mod 16) #
     toUpperCase (toHex bs)"
proof -
  have "unat b < 2 ^ LENGTH(8)" by (rule unsigned_less)
  then have lt: "unat b div 16 < 16" "unat b mod 16 < 16"
    by (simp_all add: less_mult_imp_div_less)
  have "toUpperCase (toHex (b # bs)) =
          toUpperCase [hexDigit (unat b div 16)] @ toUpperCase [hexDigit (unat b mod 16)] @
          toUpperCase (toHex bs)"
    by (simp add: toHex_def toUpperCase_def)
  with lt show ?thesis by (simp only: upper_hexDigit append_Cons append_Nil)
qed

lemma hex_char_inj:
  fixes d e :: nat
  assumes "d < 16" "e < 16"
    and "(char_of (if d < 10 then 48 + d else 55 + d) :: char) = char_of (if e < 10 then 48 + e else 55 + e)"
  shows "d = e"
proof -
  from assms(3) have "(of_char (char_of (if d < 10 then 48 + d else 55 + d) :: char) :: nat) =
      of_char (char_of (if e < 10 then 48 + e else 55 + e) :: char)" by simp
  with assms(1,2) show ?thesis by (simp split: if_splits)
qed

lemma toHex_upper_no_dash: "CHR ''-'' \<notin> set (toUpperCase (toHex bs))"
proof (induction bs)
  case Nil
  then show ?case by (simp add: toHex_def toUpperCase_def)
next
  case (Cons b bs)
  have "unat b < 2 ^ LENGTH(8)" by (rule unsigned_less)
  then have lt: "unat b div 16 < 16" "unat b mod 16 < 16"
    by (simp_all add: less_mult_imp_div_less)
  have nd: "(char_of (if d < 10 then 48 + d else 55 + d) :: char) \<noteq> CHR ''-''" if "d < 16" for d :: nat
  proof
    assume "(char_of (if d < 10 then 48 + d else 55 + d) :: char) = CHR ''-''"
    then have "(of_char (char_of (if d < 10 then 48 + d else 55 + d) :: char) :: nat) = of_char (CHR ''-'')"
      by simp
    with that show False by (simp split: if_splits)
  qed
  from nd [OF lt(1)] nd [OF lt(2)] Cons.IH show ?case
    by (simp only: toHex_upper_Cons set_simps insert_iff) auto
qed

lemma toHex_upper_inj: "toUpperCase (toHex bs) = toUpperCase (toHex cs) \<Longrightarrow> bs = cs"
proof (induction bs arbitrary: cs)
  case Nil
  then show ?case
    by (cases cs) (simp_all add: toHex_upper_Cons, simp add: toHex_def toUpperCase_def)
next
  case (Cons b bs)
  show ?case
  proof (cases cs)
    case Nil
    with Cons.prems have "toUpperCase (toHex (b # bs)) = []"
      by (simp add: toHex_def toUpperCase_def)
    then show ?thesis by (simp add: toHex_upper_Cons)
  next
    case c: (Cons c cs')
    have "unat b < 2 ^ LENGTH(8)" "unat c < 2 ^ LENGTH(8)" by (rule unsigned_less)+
    then have lt: "unat b div 16 < 16" "unat b mod 16 < 16" "unat c div 16 < 16" "unat c mod 16 < 16"
      by (simp_all add: less_mult_imp_div_less)
    from Cons.prems have eq: "toUpperCase (toHex (b # bs)) = toUpperCase (toHex (c # cs'))"
      by (simp add: c)
    then have
      h: "(char_of (if unat b div 16 < 10 then 48 + unat b div 16 else 55 + unat b div 16) :: char) =
          char_of (if unat c div 16 < 10 then 48 + unat c div 16 else 55 + unat c div 16)"
      and l: "(char_of (if unat b mod 16 < 10 then 48 + unat b mod 16 else 55 + unat b mod 16) :: char) =
          char_of (if unat c mod 16 < 10 then 48 + unat c mod 16 else 55 + unat c mod 16)"
      and t: "toUpperCase (toHex bs) = toUpperCase (toHex cs')"
      by (simp_all only: toHex_upper_Cons list.inject)
    from hex_char_inj [OF lt(1) lt(3) h] have q: "unat b div 16 = unat c div 16" .
    from hex_char_inj [OF lt(2) lt(4) l] have r: "unat b mod 16 = unat c mod 16" .
    from q r have "unat b = unat c" by (metis div_mult_mod_eq)
    then have "b = c" by (simp add: word_unat_eq_iff)
    with Cons.IH [OF t] show ?thesis by (simp add: c)
  qed
qed

lemma split_at_first:
  "xs @ x # ys = xs' @ x # ys' \<Longrightarrow> x \<notin> set xs \<Longrightarrow> x \<notin> set xs' \<Longrightarrow> xs = xs' \<and> ys = ys'"
proof (induction xs arbitrary: xs')
  case Nil
  then show ?case by (cases xs') auto
next
  case (Cons a xs)
  then show ?case by (cases xs') auto
qed

lemma split_at_last_dash:
  assumes "xs @ CHR ''-'' # ys = xs' @ CHR ''-'' # ys'"
    and "CHR ''-'' \<notin> set ys" "CHR ''-'' \<notin> set ys'"
  shows "xs = xs' \<and> ys = ys'"
proof -
  from assms(1) have "rev (xs @ CHR ''-'' # ys) = rev (xs' @ CHR ''-'' # ys')" by simp
  then have "rev ys @ CHR ''-'' # rev xs = rev ys' @ CHR ''-'' # rev xs'" by simp
  moreover from assms(2,3) have "CHR ''-'' \<notin> set (rev ys)" "CHR ''-'' \<notin> set (rev ys')" by simp_all
  ultimately have "rev ys = rev ys' \<and> rev xs = rev xs'"
    by (rule split_at_first)
  then show ?thesis by simp
qed

lemma generateKey_inj:
  assumes "generateKey t bs = generateKey t' bs'"
  shows "t = t' \<and> bs = bs'"
proof -
  from assms have "toString36 t @ CHR ''-'' # toUpperCase (toHex bs) =
      toString36 t' @ CHR ''-'' # toUpperCase (toHex bs')"
    by (simp add: generateKey_def)
  from split_at_last_dash [OF this toHex_upper_no_dash toHex_upper_no_dash]
  have "toString36 t = toString36 t' \<and> toUpperCase (toHex bs) = toUpperCase (toHex bs')" .
  then show ?thesis by (simp add: toString36_inj toHex_upper_inj)
qed

lemma keyOf_inj: "keyOf p = keyOf q \<Longrightarrow> p = q"
  using generateKey_inj [of "fst p" "snd p" "fst q" "snd q"]
  by (simp add: keyOf_def prod_eq_iff)

subsection \<open>What the handlers do to the array\<close>

lemma validar_not_found:
  assumes "k \<noteq> []" "\<forall>x\<in>set (keys s). key x \<noteq> trim k"
  shows "validar (Some k) t1 t2 io s = (Reply 404 False KeyNaoEncontrada, s)"
proof -
  have "findIndex (\<lambda>x. key x = trim k) (keys s) = None"
    using assms(2) by (simp add: findIndex_None_iff)
  with assms(1) show ?thesis by (simp add: validar_def)
qed

lemma validar_found:
  assumes "k \<noteq> []" "keys s = pre @ r # post" "\<forall>x\<in>set pre. key x \<noteq> trim k" "key r = trim k"
  shows "validar (Some k) t1 t2 io s =
     (if used r then (Reply 200 False KeyJaUtilizada, s)
      else if isExpired t1 r then (Reply 200 False KeyExpirada, s)
      else if io then (Reply 200 True KeyValida,
                 s\<lparr>keys := pre @ r\<lparr>used := True, usedAt := Some t2\<rparr> # post,
                   keysFile := pre @ r\<lparr>used := True, usedAt := Some t2\<rparr> # post\<rparr>)
      else (Reply 500 False ErroInternoValidar,
                 s\<lparr>keys := pre @ r\<lparr>used := True, usedAt := Some t2\<rparr> # post\<rparr>))"
proof -
  have f: "findIndex (\<lambda>x. key x = trim k) (keys s) = Some (length pre)"
    using assms(2,3,4) by (simp add: findIndex_first)
  have n: "keys s ! length pre = r"
    using assms(2) by simp
  have u: "(keys s)[length pre := x] = pre @ x # post" for x
    using assms(2) by simp
  show ?thesis
    using assms(1) by (simp add: validar_def f n u saveKeys_def Let_def)
qed

lemma first_match_split:
  assumes "\<exists>x\<in>set xs. p x"
  shows "\<exists>pre r post. xs = pre @ r # post \<and> (\<forall>x\<in>set pre. \<not> p x) \<and> p r"
  using assms by (metis split_list_first_prop)

lemma validar_keys_cases:
  "keys (snd (validar bk t1 t2 io s)) = keys s \<or>
   (\<exists>pre r post. keys s = pre @ r # post \<and> \<not> used r \<and>
      keys (snd (validar bk t1 t2 io s)) = pre @ r\<lparr>used := True, usedAt := Some t2\<rparr> # post)"
proof (cases bk)
  case None
  then show ?thesis by (simp add: validar_def)
next
  case (Some k)
  show ?thesis
  proof (cases "k = []")
    case True
    with Some show ?thesis by (simp add: validar_def)
  next
    case False
    show ?thesis
    proof (cases "\<exists>x\<in>set (keys s). key x = trim k")
      case True
      then obtain pre r post where
        sp: "keys s = pre @ r # post" "\<forall>x\<in>set pre. key x \<noteq> trim k" "key r = trim k"
        using first_match_split [of "keys s" "\<lambda>x. key x = trim k"] by blast
      show ?thesis
        unfolding Some validar_found [OF False sp]
        using sp(1) by auto
    next
      case False
      with \<open>k \<noteq> []\<close> Some show ?thesis by (simp add: validar_not_found)
    qed
  qed
qed

lemma gerar_keys_cases:
  "snd (gerar cfg body env s) = s \<or>
   (\<exists>sl ol. keys (snd (gerar cfg body env s)) =
      keys s @ [\<lparr>key = generateKey (keyClock env) (randomBytes env), used = False,
                 createdAt = Some (createdClock env), usedAt = None,
                 shortLink = sl, originalLink = ol\<rparr>])"
  by (cases s) (auto simp: gerar_def saveKeys_def Let_def split: option.splits axios_outcome.splits)

lemma keepKey_iff:
  "keepKey oneDayAgo r \<longleftrightarrow>
     used r \<or> createdAt r = None \<or> createdAt r = Some 0 \<or>
     (\<exists>c. createdAt r = Some c \<and> oneDayAgo < c)"
  by (auto simp: keepKey_def truthy_num_def split: option.splits)

lemma cleanExpiredKeys_keys:
  "keys (cleanExpiredKeys now io s) = filter (keepKey (now - 24 * 60 * 60 * 1000)) (keys s)"
  by (simp add: cleanExpiredKeys_def Let_def saveKeys_def)

lemma cleanExpiredKeys_keysFile:
  "keysFile (cleanExpiredKeys now io s) =
     (if io \<and> (\<exists>r\<in>set (keys s). \<not> keepKey (now - 24 * 60 * 60 * 1000) r)
      then filter (keepKey (now - 24 * 60 * 60 * 1000)) (keys s) else keysFile s)"
proof -
  have "length (filter P xs) \<noteq> length xs \<longleftrightarrow> (\<exists>x\<in>set xs. \<not> P x)" for P and xs :: "keyObject list"
    by (metis filter_True length_filter_less less_irrefl_nat filter_id_conv)
  then show ?thesis
    by (auto simp: cleanExpiredKeys_def Let_def saveKeys_def)
qed

subsection \<open>What issuing does\<close>

lemma gerar_Success:
  assumes "gerar cfg body env s0 = (Success k sl, s)"
  shows "k = generateKey (keyClock env) (randomBytes env) \<and> saveOk env \<and> keysFile s = keys s \<and>
         (\<exists>ol. keys s = keys s0 @ [\<lparr>key = k, used = False, createdAt = Some (createdClock env),
                    usedAt = None, shortLink = Some sl, originalLink = ol\<rparr>])"
  using assms
  by (auto simp: gerar_def saveKeys_def Let_def catch_gerar_def
      split: option.splits axios_outcome.splits if_splits)

lemma gerar_unchanged:
  assumes "\<forall>u. axios_post env = Resolved (Some u) \<longrightarrow> u = []"
  shows "snd (gerar cfg body env s) = s"
  using assms
  by (cases "axios_post env")
     (auto simp: gerar_def Let_def split: option.splits)

lemma gerar_past_checks:
  assumes "monetizzyToken body = Some (MONETIZZY_TOKEN cfg)" "MONETIZZY_TOKEN cfg \<noteq> []"
    "link body = Some l" "l \<noteq> []" "isValidUrl cfg l"
  shows "gerar cfg body env s =
     (case axios_post env of
        Rejected c st \<Rightarrow> (catch_gerar (AxiosError c st), s)
      | Resolved None \<Rightarrow> (Failure 400 ErroLinkEncurtado, s)
      | Resolved (Some u) \<Rightarrow>
          if u = [] then (Failure 400 ErroLinkEncurtado, s)
          else if saveOk env
            then (Success (generateKey (keyClock env) (randomBytes env)) u,
                  s\<lparr>keys := keys s @ [\<lparr>key = generateKey (keyClock env) (randomBytes env),
                       used = False, createdAt = Some (createdClock env), usedAt = None,
                       shortLink = Some u, originalLink = Some (trim l)\<rparr>],
                    keysFile := keys s @ [\<lparr>key = generateKey (keyClock env) (randomBytes env),
                       used = False, createdAt = Some (createdClock env), usedAt = None,
                       shortLink = Some u, originalLink = Some (trim l)\<rparr>]\<rparr>)
            else (Failure 500 ErroInternoGerar,
                  s\<lparr>keys := keys s @ [\<lparr>key = generateKey (keyClock env) (randomBytes env),
                       used = False, createdAt = Some (createdClock env), usedAt = None,
                       shortLink = Some u, originalLink = Some (trim l)\<rparr>]\<rparr>))"
  using assms
  by (simp add: gerar_def truthy_str_def Let_def saveKeys_def catch_gerar_def
      split: axios_outcome.splits option.splits)

subsection \<open>What redeeming does\<close>

lemma redeem_twice_io:
  assumes d: "distinct (map key (keys s))" and r: "r \<in> set (keys s)"
    and k: "key r \<noteq> []" "trim (key r) = key r" and u: "\<not> used r" and e: "\<not> isExpired t1 r"
  shows "fst (validar (Some (key r)) t1 t2 io s) =
           (if io then Reply 200 True KeyValida else Reply 500 False ErroInternoValidar) \<and>
         validar (Some (key r)) t3 t4 io' (snd (validar (Some (key r)) t1 t2 io s)) =
           (Reply 200 False KeyJaUtilizada, snd (validar (Some (key r)) t1 t2 io s))"
proof -
  from r obtain pre post where sp: "keys s = pre @ r # post"
    by (auto dest: split_list)
  have np: "\<forall>x\<in>set pre. key x \<noteq> trim (key r)"
  proof
    fix x assume x: "x \<in> set pre"
    from d sp have "key r \<notin> set (map key pre)" by simp
    with x have "key x \<noteq> key r" by (metis image_eqI list.set_map)
    then show "key x \<noteq> trim (key r)" by (simp add: k(2))
  qed
  let ?r' = "r\<lparr>used := True, usedAt := Some t2\<rparr>"
  let ?s' = "snd (validar (Some (key r)) t1 t2 io s)"
  have one: "validar (Some (key r)) t1 t2 io s =
      (if io then (Reply 200 True KeyValida,
                   s\<lparr>keys := pre @ ?r' # post, keysFile := pre @ ?r' # post\<rparr>)
       else (Reply 500 False ErroInternoValidar, s\<lparr>keys := pre @ ?r' # post\<rparr>))"
    using validar_found [OF k(1) sp np, of t1 t2 io] u e by (simp add: k(2))
  then have ks: "keys ?s' = pre @ ?r' # post" by simp
  have kr: "key ?r' = trim (key r)" by (simp add: k(2))
  from validar_found [OF k(1) ks np kr, of t3 t4 io']
  have two: "validar (Some (key r)) t3 t4 io' ?s' = (Reply 200 False KeyJaUtilizada, ?s')"
    by simp
  from one two show ?thesis by simp
qed

lemma validar_valid:
  assumes "fst (validar bk t1 t2 io s) = Reply st True m"
  shows "io \<and> keysFile (snd (validar bk t1 t2 io s)) = keys (snd (validar bk t1 t2 io s))"
  using assms
  by (auto simp: validar_def saveKeys_def Let_def split: option.splits if_splits)

subsection \<open>What the sweep does\<close>

lemma sweep_removes_iff:
  assumes "r \<in> set (keys s)"
  shows "r \<notin> set (keys (cleanExpiredKeys now io s)) \<longleftrightarrow>
         \<not> used r \<and> (\<exists>c. createdAt r = Some c \<and> c \<noteq> 0 \<and> now - c \<ge> 24 * 60 * 60 * 1000)"
  using assms by (auto simp: cleanExpiredKeys_keys keepKey_iff)

lemma sweeps_keep:
  assumes "r \<in> set (keys s)" "used r \<or> createdAt r = None \<or> createdAt r = Some 0"
    and "\<forall>e\<in>set es. \<exists>now io. e = Sweep now io"
  shows "r \<in> set (keys (run cfg es s))"
  using assms(1,3)
proof (induction es arbitrary: s)
  case Nil
  then show ?case by simp
next
  case (Cons e es)
  from Cons.prems(2) obtain now io where e: "e = Sweep now io" by auto
  from Cons.prems(1) assms(2) have "r \<in> set (keys (step cfg e s))"
    by (auto simp: e cleanExpiredKeys_keys keepKey_iff)
  moreover from Cons.prems(2) have "\<forall>e\<in>set es. \<exists>now io. e = Sweep now io" by simp
  ultimately show ?case by (simp add: Cons.IH)
qed

subsection \<open>Steps and runs\<close>

lemma used_stays_step:
  assumes "r \<in> set (keys s)" "used r"
  shows "r \<in> set (keys (step cfg e s))"
proof (cases e)
  case (Gerar body env)
  from gerar_keys_cases [of cfg body env s] assms(1) show ?thesis
    by (auto simp: Gerar)
next
  case (Validar bk t1 t2 io)
  from validar_keys_cases [of bk t1 t2 io s] show ?thesis
  proof
    assume "keys (snd (validar bk t1 t2 io s)) = keys s"
    with assms(1) show ?thesis by (simp add: Validar)
  next
    assume "\<exists>pre r0 post. keys s = pre @ r0 # post \<and> \<not> used r0 \<and>
      keys (snd (validar bk t1 t2 io s)) = pre @ r0\<lparr>used := True, usedAt := Some t2\<rparr> # post"
    then obtain pre r0 post where k: "keys s = pre @ r0 # post" "\<not> used r0"
      "keys (snd (validar bk t1 t2 io s)) = pre @ r0\<lparr>used := True, usedAt := Some t2\<rparr> # post"
      by blast
    from assms k(1,2) have "r \<in> set pre \<or> r \<in> set post" by auto
    then show ?thesis by (auto simp: Validar k(3))
  qed
next
  case (Sweep now io)
  from assms show ?thesis
    by (simp add: Sweep cleanExpiredKeys_keys keepKey_def)
qed

lemma run_snoc: "run cfg (es @ [e]) s = step cfg e (run cfg es s)"
  by (induction es arbitrary: s) simp_all

lemma ids_step:
  assumes d: "distinct (map key (keys s))"
    and g: "key ` set (keys s) \<subseteq> keyOf ` P"
    and f: "set (draws cfg [e] s) \<inter> P = {}"
  shows "distinct (map key (keys (step cfg e s))) \<and>
         key ` set (keys (step cfg e s)) \<subseteq> keyOf ` (P \<union> set (draws cfg [e] s))"
proof (cases e)
  case (Gerar body env)
  from gerar_keys_cases [of cfg body env s] show ?thesis
  proof
    assume "snd (gerar cfg body env s) = s"
    with d g show ?thesis by (auto simp: Gerar)
  next
    assume "\<exists>sl ol. keys (snd (gerar cfg body env s)) =
      keys s @ [\<lparr>key = generateKey (keyClock env) (randomBytes env), used = False,
                 createdAt = Some (createdClock env), usedAt = None,
                 shortLink = sl, originalLink = ol\<rparr>]"
    then obtain sl ol where k: "keys (snd (gerar cfg body env s)) =
      keys s @ [\<lparr>key = generateKey (keyClock env) (randomBytes env), used = False,
                 createdAt = Some (createdClock env), usedAt = None,
                 shortLink = sl, originalLink = ol\<rparr>]" by blast
    then have ch: "keys (step cfg e s) \<noteq> keys s" by (simp add: Gerar)
    then have dr: "draws cfg [e] s = [(keyClock env, randomBytes env)]" by (simp add: Gerar)
    from f have np: "(keyClock env, randomBytes env) \<notin> P" unfolding dr by simp
    have new: "generateKey (keyClock env) (randomBytes env) \<notin> key ` set (keys s)"
    proof
      assume "generateKey (keyClock env) (randomBytes env) \<in> key ` set (keys s)"
      with g have "keyOf (keyClock env, randomBytes env) \<in> keyOf ` P" by (auto simp: keyOf_def)
      then obtain p where "p \<in> P" "keyOf (keyClock env, randomBytes env) = keyOf p" by blast
      with np show False by (auto dest: keyOf_inj)
    qed
    have 1: "distinct (map key (keys (step cfg e s)))"
      using d new by (simp add: Gerar k)
    have 2: "key ` set (keys (step cfg e s)) \<subseteq> keyOf ` (P \<union> set (draws cfg [e] s))"
      using g unfolding dr by (auto simp: Gerar k keyOf_def)
    from 1 2 show ?thesis ..
  qed
next
  case (Validar bk t1 t2 io)
  from validar_keys_cases [of bk t1 t2 io s]
  have "map key (keys (snd (validar bk t1 t2 io s))) = map key (keys s)"
    by auto
  then have m: "map key (keys (step cfg e s)) = map key (keys s)" by (simp add: Validar)
  then have "set (map key (keys (step cfg e s))) = set (map key (keys s))" by simp
  then have "key ` set (keys (step cfg e s)) = key ` set (keys s)" by simp
  with d g m show ?thesis by (simp add: Validar)
next
  case (Sweep now io)
  from d g show ?thesis
    by (auto simp: Sweep cleanExpiredKeys_keys distinct_map_filter)
qed

lemma draws_Cons: "draws cfg (e # es) s = draws cfg [e] s @ draws cfg es (step cfg e s)"
  by simp

lemma ids_run:
  "distinct (map key (keys s)) \<Longrightarrow> key ` set (keys s) \<subseteq> keyOf ` P \<Longrightarrow>
   distinct (draws cfg es s) \<Longrightarrow> set (draws cfg es s) \<inter> P = {} \<Longrightarrow>
   distinct (map key (keys (run cfg es s))) \<and>
   key ` set (keys (run cfg es s)) \<subseteq> keyOf ` (P \<union> set (draws cfg es s))"
proof (induction es arbitrary: s P)
  case Nil
  then show ?case by simp
next
  case (Cons e es)
  let ?a = "draws cfg [e] s" and ?b = "draws cfg es (step cfg e s)"
  have dc: "draws cfg (e # es) s = ?a @ ?b" by (rule draws_Cons)
  from Cons.prems(3,4) have a: "set ?a \<inter> P = {}" and b: "distinct ?b"
    and ab: "set ?a \<inter> set ?b = {}" and bp: "set ?b \<inter> P = {}"
    unfolding dc by auto
  from ids_step [OF Cons.prems(1,2) a]
  have 1: "distinct (map key (keys (step cfg e s)))"
    and 2: "key ` set (keys (step cfg e s)) \<subseteq> keyOf ` (P \<union> set ?a)"
    by simp_all
  from ab bp have 3: "set ?b \<inter> (P \<union> set ?a) = {}" by auto
  from Cons.IH [OF 1 2 b 3]
  have "distinct (map key (keys (run cfg es (step cfg e s)))) \<and>
        key ` set (keys (run cfg es (step cfg e s))) \<subseteq> keyOf ` (P \<union> set ?a \<union> set ?b)" .
  then show ?case unfolding dc by (simp add: Un_assoc)
qed

lemma reachable_ids:
  assumes "distinct (draws cfg es empty_store)"
  shows "distinct (map key (keys (run cfg es empty_store)))"
    and "\<forall>r\<in>set (keys (run cfg es empty_store)). key r \<noteq> [] \<and> trim (key r) = key r"
proof -
  from ids_run [of empty_store "{}" cfg es] assms
  have 1: "distinct (map key (keys (run cfg es empty_store)))"
    and 2: "key ` set (keys (run cfg es empty_store)) \<subseteq> keyOf ` set (draws cfg es empty_store)"
    by (simp_all add: empty_store_def)
  from 1 show "distinct (map key (keys (run cfg es empty_store)))" .
  show "\<forall>r\<in>set (keys (run cfg es empty_store)). key r \<noteq> [] \<and> trim (key r) = key r"
  proof
    fix r assume "r \<in> set (keys (run cfg es empty_store))"
    with 2 obtain p where "key r = keyOf p" by blast
    then show "key r \<noteq> [] \<and> trim (key r) = key r"
      using generateKey_trimmed [of "fst p" "snd p"] by (simp add: keyOf_def)
  qed
qed

lemma stamped_append: "stamped (as @ ts) r \<Longrightarrow> stamped ts r"
  by (auto simp: stamped_def split: option.splits if_splits)

lemma stamped_step:
  assumes inv: "\<forall>r\<in>set (keys s). stamped (clock_reads e @ ts) r"
    and srt: "sorted (clock_reads e @ ts)"
  shows "\<forall>r\<in>set (keys (step cfg e s)). stamped ts r"
proof (cases e)
  case (Gerar body env)
  from srt have le: "list_all (\<lambda>t. createdClock env \<le> t) ts"
    by (auto simp: Gerar list_all_iff sorted_append)
  from inv have old: "\<forall>r\<in>set (keys s). stamped ts r"
    by (blast intro: stamped_append)
  from gerar_keys_cases [of cfg body env s] show ?thesis
  proof
    assume "snd (gerar cfg body env s) = s"
    with old show ?thesis by (simp add: Gerar)
  next
    assume "\<exists>sl ol. keys (snd (gerar cfg body env s)) =
      keys s @ [\<lparr>key = generateKey (keyClock env) (randomBytes env), used = False,
                 createdAt = Some (createdClock env), usedAt = None,
                 shortLink = sl, originalLink = ol\<rparr>]"
    then obtain sl ol where "keys (snd (gerar cfg body env s)) =
      keys s @ [\<lparr>key = generateKey (keyClock env) (randomBytes env), used = False,
                 createdAt = Some (createdClock env), usedAt = None,
                 shortLink = sl, originalLink = ol\<rparr>]" by blast
    with old le show ?thesis by (auto simp: Gerar stamped_def)
  qed
next
  case (Validar bk t1 t2 io)
  from inv have old: "\<forall>r\<in>set (keys s). stamped ts r"
    by (blast intro: stamped_append)
  from validar_keys_cases [of bk t1 t2 io s] show ?thesis
  proof
    assume "keys (snd (validar bk t1 t2 io s)) = keys s"
    with old show ?thesis by (simp add: Validar)
  next
    assume "\<exists>pre r0 post. keys s = pre @ r0 # post \<and> \<not> used r0 \<and>
      keys (snd (validar bk t1 t2 io s)) = pre @ r0\<lparr>used := True, usedAt := Some t2\<rparr> # post"
    then obtain pre r0 post where k: "keys s = pre @ r0 # post" "\<not> used r0"
      "keys (snd (validar bk t1 t2 io s)) = pre @ r0\<lparr>used := True, usedAt := Some t2\<rparr> # post"
      by blast
    from inv k(1) have "stamped ([t1, t2] @ ts) r0" by (simp add: Validar)
    then have "stamped ts (r0\<lparr>used := True, usedAt := Some t2\<rparr>)"
      by (auto simp: stamped_def split: option.splits)
    with old k(1) show ?thesis by (auto simp: Validar k(3))
  qed
next
  case (Sweep now io)
  from inv have old: "\<forall>r\<in>set (keys s). stamped ts r"
    by (blast intro: stamped_append)
  then show ?thesis by (simp add: Sweep cleanExpiredKeys_keys)
qed

lemma stamped_run:
  "\<forall>r\<in>set (keys s). stamped (concat (map clock_reads es)) r \<Longrightarrow>
   sorted (concat (map clock_reads es)) \<Longrightarrow>
   \<forall>r\<in>set (keys (run cfg es s)). stamped [] r"
proof (induction es arbitrary: s)
  case Nil
  then show ?case by simp
next
  case (Cons e es)
  from Cons.prems have "\<forall>r\<in>set (keys (step cfg e s)). stamped (concat (map clock_reads es)) r"
    by (intro stamped_step) simp_all
  moreover from Cons.prems(2) have "sorted (concat (map clock_reads es))"
    by (simp add: sorted_append)
  ultimately show ?case by (simp add: Cons.IH)
qed

subsection \<open>The examples, evaluated\<close>

lemma gerar_example:
  "gerar exCfg exBody exEnv empty_store =
     (Success exKey ''https://ufly.monetizzy.com/abc'', \<lparr>keys = [exIssued], keysFile = [exIssued]\<rparr>)"
  by (simp add: gerar_def exCfg_def exBody_def exEnv_def empty_store_def truthy_str_def
      saveKeys_def exIssued_def exKey_def Let_def trim_def isWhiteSpace_def)

lemma exKey_trimmed: "exKey \<noteq> []" "trim exKey = exKey"
  using generateKey_trimmed [of 1000 "[0x0A, 0xFF, 0x10, 0x9C, 0x00, 0x7B]"]
  by (simp_all add: exKey_def)

lemma gerar_example2:
  "gerar exCfg exBody exEnv2 \<lparr>keys = [exIssued], keysFile = [exIssued]\<rparr> =
     (Success exKey2 ''https://ufly.monetizzy.com/abc'',
      \<lparr>keys = [exIssued, exIssued2], keysFile = [exIssued, exIssued2]\<rparr>)"
  by (simp add: gerar_def exCfg_def exBody_def exEnv_def exEnv2_def truthy_str_def
      saveKeys_def exIssued2_def exKey2_def Let_def trim_def isWhiteSpace_def)

lemma step_example1:
  "step exCfg (Gerar exBody exEnv) empty_store = \<lparr>keys = [exIssued], keysFile = [exIssued]\<rparr>"
  by (simp add: gerar_example)

lemma step_example2:
  "step exCfg (Gerar exBody exEnv2) \<lparr>keys = [exIssued], keysFile = [exIssued]\<rparr> =
     \<lparr>keys = [exIssued, exIssued2], keysFile = [exIssued, exIssued2]\<rparr>"
  by (simp add: gerar_example2)

lemma run_two_issues:
  "run exCfg [Gerar exBody exEnv, Gerar exBody exEnv2] empty_store =
     \<lparr>keys = [exIssued, exIssued2], keysFile = [exIssued, exIssued2]\<rparr>"
  by (simp only: run.simps step_example1 step_example2)

lemma draws_two_issues:
  "draws exCfg [Gerar exBody exEnv, Gerar exBody exEnv2] empty_store =
     [(1000, [0x0A, 0xFF, 0x10, 0x9C, 0x00, 0x7B]), (1001, [0x0A, 0xFF, 0x10, 0x9C, 0x00, 0x7B])]"
proof -
  have 1: "draws exCfg [Gerar exBody exEnv] empty_store = [(1000, [0x0A, 0xFF, 0x10, 0x9C, 0x00, 0x7B])]"
    by (simp only: draws.simps step_example1) (simp add: empty_store_def exEnv_def)
  have 2: "draws exCfg [Gerar exBody exEnv2] \<lparr>keys = [exIssued], keysFile = [exIssued]\<rparr> =
      [(1001, [0x0A, 0xFF, 0x10, 0x9C, 0x00, 0x7B])]"
    by (simp only: draws.simps step_example2) (simp add: exEnv_def exEnv2_def)
  have "draws exCfg [Gerar exBody exEnv, Gerar exBody exEnv2] empty_store =
      draws exCfg [Gerar exBody exEnv] empty_store @
      draws exCfg [Gerar exBody exEnv2] (step exCfg (Gerar exBody exEnv) empty_store)"
    by (rule draws_Cons)
  then show ?thesis by (simp only: 1 2 step_example1 append_Cons append_Nil)
qed

lemma run_collision:
  "run exCfg [Gerar exBody exEnv, Validar (Some exKey) 1001 1002 True] empty_store =
     \<lparr>keys = [exIssued\<lparr>used := True, usedAt := Some 1002\<rparr>],
      keysFile = [exIssued\<lparr>used := True, usedAt := Some 1002\<rparr>]\<rparr>"
  "run exCfg [Gerar exBody exEnv, Validar (Some exKey) 1001 1002 True, Gerar exBody exEnv] empty_store =
     \<lparr>keys = [exIssued\<lparr>used := True, usedAt := Some 1002\<rparr>, exIssued],
      keysFile = [exIssued\<lparr>used := True, usedAt := Some 1002\<rparr>, exIssued]\<rparr>"
  "gerar exCfg exBody exEnv \<lparr>keys = [exIssued\<lparr>used := True, usedAt := Some 1002\<rparr>],
      keysFile = [exIssued\<lparr>used := True, usedAt := Some 1002\<rparr>]\<rparr> =
     (Success exKey ''https://ufly.monetizzy.com/abc'',
      \<lparr>keys = [exIssued\<lparr>used := True, usedAt := Some 1002\<rparr>, exIssued],
       keysFile = [exIssued\<lparr>used := True, usedAt := Some 1002\<rparr>, exIssued]\<rparr>)"
proof -
  let ?s1 = "\<lparr>keys = [exIssued], keysFile = [exIssued]\<rparr>"
  let ?s2 = "\<lparr>keys = [exIssued\<lparr>used := True, usedAt := Some 1002\<rparr>],
      keysFile = [exIssued\<lparr>used := True, usedAt := Some 1002\<rparr>]\<rparr>"
  let ?s3 = "\<lparr>keys = [exIssued\<lparr>used := True, usedAt := Some 1002\<rparr>, exIssued],
      keysFile = [exIssued\<lparr>used := True, usedAt := Some 1002\<rparr>, exIssued]\<rparr>"
  have 2: "step exCfg (Validar (Some exKey) 1001 1002 True) ?s1 = ?s2"
    using exKey_trimmed
    by (simp add: validar_def exIssued_def isExpired_def truthy_num_def saveKeys_def Let_def)
  show g: "gerar exCfg exBody exEnv ?s2 = (Success exKey ''https://ufly.monetizzy.com/abc'', ?s3)"
    by (simp add: gerar_def exCfg_def exBody_def exEnv_def truthy_str_def
        saveKeys_def exIssued_def exKey_def Let_def trim_def isWhiteSpace_def)
  then have 3: "step exCfg (Gerar exBody exEnv) ?s2 = ?s3" by simp
  show "run exCfg [Gerar exBody exEnv, Validar (Some exKey) 1001 1002 True] empty_store = ?s2"
    by (simp only: run.simps step_example1 2)
  show "run exCfg [Gerar exBody exEnv, Validar (Some exKey) 1001 1002 True, Gerar exBody exEnv]
      empty_store = ?s3"
    by (simp only: run.simps step_example1 2 3)
qed

lemma run_example:
  "run exCfg [Gerar exBody exEnv, Validar (Some exKey) 1001 1002 True, Sweep 90000000 True] empty_store =
     \<lparr>keys = [exIssued\<lparr>used := True, usedAt := Some 1002\<rparr>],
      keysFile = [exIssued\<lparr>used := True, usedAt := Some 1002\<rparr>]\<rparr>"
  by (simp add: gerar_example validar_def exKey_trimmed exIssued_def isExpired_def truthy_num_def
      saveKeys_def cleanExpiredKeys_def keepKey_def Let_def)

section \<open>Redeeming a key\<close>

text \<open>
  C1, as stated, fails where a record has a \<open>createdAt\<close> that is the number 0. The test
  \<open>found.createdAt && ...\<close> takes 0 for an absent time stamp, so an unused record created
  at time 0 and looked up more than 24 hours later is not reported as expired: it is
  redeemed, and the array and the file change.
\<close>

theorem validar_createdAt_zero_valid:
  "createdAt exZero = Some 0 \<and> \<not> used exZero \<and> (86400001 :: int) - 0 > 24 * 60 * 60 * 1000 \<and>
   validar (Some ''k-zero'') 86400001 86400001 True \<lparr>keys = [exZero], keysFile = [exZero]\<rparr> =
     (Reply 200 True KeyValida,
      \<lparr>keys = [exZero\<lparr>used := True, usedAt := Some 86400001\<rparr>],
       keysFile = [exZero\<lparr>used := True, usedAt := Some 86400001\<rparr>]\<rparr>)"
  by (simp add: validar_def exZero_def trim_def isWhiteSpace_def isExpired_def truthy_num_def
      saveKeys_def)

text \<open>
  C1, amended. For every state and every supplied (non-empty) key, when the write to the
  file succeeds, \<open>POST /validar\<close> gives exactly one of four outcomes, decided in this order
  on the trimmed key. If no record has that id: 404 not found, and the state is as before.
  Otherwise, for the first record with that id: if it is used, "already used", and the
  state is as before; otherwise if its \<open>createdAt\<close> is present and not 0 and the clock minus
  \<open>createdAt\<close> exceeds 24 hours, "expired", and the state is as before (the record stays in
  the array); otherwise that record gets \<open>used = true\<close> and \<open>usedAt\<close> the clock reading, the
  array is written to the file, and the reply is valid.
\<close>

theorem validar_outcomes:
  assumes "k \<noteq> []"
  shows
    "((\<forall>x\<in>set (keys s). key x \<noteq> trim k) \<longrightarrow>
        validar (Some k) t1 t2 True s = (Reply 404 False KeyNaoEncontrada, s)) \<and>
     (\<forall>pre r post.
        keys s = pre @ r # post \<and> (\<forall>x\<in>set pre. key x \<noteq> trim k) \<and> key r = trim k \<longrightarrow>
        validar (Some k) t1 t2 True s =
          (if used r then (Reply 200 False KeyJaUtilizada, s)
           else if \<exists>c. createdAt r = Some c \<and> c \<noteq> 0 \<and> t1 - c > 24 * 60 * 60 * 1000
             then (Reply 200 False KeyExpirada, s)
           else (Reply 200 True KeyValida,
                 s\<lparr>keys := pre @ r\<lparr>used := True, usedAt := Some t2\<rparr> # post,
                   keysFile := pre @ r\<lparr>used := True, usedAt := Some t2\<rparr> # post\<rparr>))) \<and>
     fst (validar (Some k) t1 t2 True s) \<in>
       {Reply 404 False KeyNaoEncontrada, Reply 200 False KeyJaUtilizada,
        Reply 200 False KeyExpirada, Reply 200 True KeyValida}"
proof (intro conjI allI impI)
  assume "\<forall>x\<in>set (keys s). key x \<noteq> trim k"
  with assms show "validar (Some k) t1 t2 True s = (Reply 404 False KeyNaoEncontrada, s)"
    by (rule validar_not_found)
next
  fix pre r post
  assume a: "keys s = pre @ r # post \<and> (\<forall>x\<in>set pre. key x \<noteq> trim k) \<and> key r = trim k"
  have e: "isExpired t1 r \<longleftrightarrow> (\<exists>c. createdAt r = Some c \<and> c \<noteq> 0 \<and> t1 - c > 24 * 60 * 60 * 1000)"
    by (auto simp: isExpired_def truthy_num_def split: option.splits)
  from a have "keys s = pre @ r # post" "\<forall>x\<in>set pre. key x \<noteq> trim k" "key r = trim k"
    by simp_all
  from validar_found [OF assms this, of t1 t2 True] show
    "validar (Some k) t1 t2 True s =
          (if used r then (Reply 200 False KeyJaUtilizada, s)
           else if \<exists>c. createdAt r = Some c \<and> c \<noteq> 0 \<and> t1 - c > 24 * 60 * 60 * 1000
             then (Reply 200 False KeyExpirada, s)
           else (Reply 200 True KeyValida,
                 s\<lparr>keys := pre @ r\<lparr>used := True, usedAt := Some t2\<rparr> # post,
                   keysFile := pre @ r\<lparr>used := True, usedAt := Some t2\<rparr> # post\<rparr>))"
    by (auto simp: e)
next
  show "fst (validar (Some k) t1 t2 True s) \<in>
       {Reply 404 False KeyNaoEncontrada, Reply 200 False KeyJaUtilizada,
        Reply 200 False KeyExpirada, Reply 200 True KeyValida}"
  proof (cases "\<exists>x\<in>set (keys s). key x = trim k")
    case True
    then obtain pre r post where
      "keys s = pre @ r # post" "\<forall>x\<in>set pre. key x \<noteq> trim k" "key r = trim k"
      using first_match_split [of "keys s" "\<lambda>x. key x = trim k"] by blast
    from validar_found [OF assms this, of t1 t2 True] show ?thesis by simp
  next
    case False
    with assms show ?thesis by (simp add: validar_not_found)
  qed
qed

theorem validar_outcomes_witness:
  "validar (Some '' nope '') 90000001 90000002 True exStore = (Reply 404 False KeyNaoEncontrada, exStore) \<and>
   validar (Some ''k-used'') 90000001 90000002 True exStore = (Reply 200 False KeyJaUtilizada, exStore) \<and>
   validar (Some ''k-old '') 90000001 90000002 True exStore = (Reply 200 False KeyExpirada, exStore) \<and>
   validar (Some '' k-new'') 90000001 90000002 True exStore =
     (Reply 200 True KeyValida,
      \<lparr>keys = [exUsed, exOld, exFresh\<lparr>used := True, usedAt := Some 90000002\<rparr>],
       keysFile = [exUsed, exOld, exFresh\<lparr>used := True, usedAt := Some 90000002\<rparr>]\<rparr>)"
proof -
  have t: "trim '' nope '' = ''nope''" "trim ''k-used'' = ''k-used''" "trim ''k-old '' = ''k-old''"
    "trim '' k-new'' = ''k-new''"
    by (simp_all add: trim_def isWhiteSpace_def)
  have k: "keys exStore = [] @ exUsed # [exOld, exFresh]" "keys exStore = [exUsed] @ exOld # [exFresh]"
    "keys exStore = [exUsed, exOld] @ exFresh # []"
    by (simp_all add: exStore_def)
  have 1: "validar (Some '' nope '') 90000001 90000002 True exStore = (Reply 404 False KeyNaoEncontrada, exStore)"
    using validar_outcomes [of "'' nope ''" exStore 90000001 90000002]
    by (simp add: t exStore_def exUsed_def exOld_def exFresh_def)
  have 2: "validar (Some ''k-used'') 90000001 90000002 True exStore = (Reply 200 False KeyJaUtilizada, exStore)"
    using validar_outcomes [of "''k-used''" exStore 90000001 90000002, THEN conjunct2, THEN conjunct1,
        rule_format, of "[]" exUsed "[exOld, exFresh]"]
    by (simp add: t exStore_def exUsed_def)
  have 3: "validar (Some ''k-old '') 90000001 90000002 True exStore = (Reply 200 False KeyExpirada, exStore)"
    using validar_outcomes [of "''k-old ''" exStore 90000001 90000002, THEN conjunct2, THEN conjunct1,
        rule_format, of "[exUsed]" exOld "[exFresh]"]
    by (simp add: t exStore_def exUsed_def exOld_def)
  have 4: "validar (Some '' k-new'') 90000001 90000002 True exStore =
     (Reply 200 True KeyValida,
      \<lparr>keys = [exUsed, exOld, exFresh\<lparr>used := True, usedAt := Some 90000002\<rparr>],
       keysFile = [exUsed, exOld, exFresh\<lparr>used := True, usedAt := Some 90000002\<rparr>]\<rparr>)"
    using validar_outcomes [of "'' k-new''" exStore 90000001 90000002, THEN conjunct2, THEN conjunct1,
        rule_format, of "[exUsed, exOld]" exFresh "[]"]
    by (simp add: t exStore_def exUsed_def exOld_def exFresh_def)
  from 1 2 3 4 show ?thesis by simp
qed

text \<open>
  C2, as stated, fails in two ways. Ids can repeat: after an issue, a redemption and a
  second issue that reads the same clock value and draws the same random bytes, the array
  holds a used and an unused record with one id; the second record is unused and
  unexpired and is the one a successful issue has just returned, yet its redemption
  answers "already used", because the lookup finds the first record. And the write can
  fail: the first redemption of an unused, unexpired key then answers 500, not valid, and
  the key is used all the same, so the next redemption answers "already used".
\<close>

theorem redeem_after_collision_or_failed_write:
  "fst (gerar exCfg exBody exEnv
      (run exCfg [Gerar exBody exEnv, Validar (Some exKey) 1001 1002 True] empty_store)) =
     Success exKey ''https://ufly.monetizzy.com/abc'' \<and>
   keys (run exCfg [Gerar exBody exEnv, Validar (Some exKey) 1001 1002 True, Gerar exBody exEnv]
      empty_store) = [exIssued\<lparr>used := True, usedAt := Some 1002\<rparr>, exIssued] \<and>
   key exIssued = exKey \<and> \<not> used exIssued \<and> \<not> isExpired 1003 exIssued \<and>
   fst (validar (Some exKey) 1003 1004 True
      (run exCfg [Gerar exBody exEnv, Validar (Some exKey) 1001 1002 True, Gerar exBody exEnv]
        empty_store)) = Reply 200 False KeyJaUtilizada \<and>
   fst (validar (Some exKey) 1001 1002 False (run exCfg [Gerar exBody exEnv] empty_store)) =
     Reply 500 False ErroInternoValidar \<and>
   fst (validar (Some exKey) 1003 1004 True
      (snd (validar (Some exKey) 1001 1002 False (run exCfg [Gerar exBody exEnv] empty_store)))) =
     Reply 200 False KeyJaUtilizada"
proof -
  have r1: "run exCfg [Gerar exBody exEnv] empty_store = \<lparr>keys = [exIssued], keysFile = [exIssued]\<rparr>"
    by (simp only: run.simps step_example1)
  have a: "key exIssued = exKey \<and> \<not> used exIssued \<and> \<not> isExpired 1003 exIssued"
    by (simp add: exIssued_def isExpired_def truthy_num_def)
  have b: "fst (validar (Some exKey) 1003 1004 True
      \<lparr>keys = [exIssued\<lparr>used := True, usedAt := Some 1002\<rparr>, exIssued],
       keysFile = [exIssued\<lparr>used := True, usedAt := Some 1002\<rparr>, exIssued]\<rparr>) =
      Reply 200 False KeyJaUtilizada"
    using exKey_trimmed by (simp add: validar_def exIssued_def Let_def)
  have c: "validar (Some exKey) 1001 1002 False \<lparr>keys = [exIssued], keysFile = [exIssued]\<rparr> =
      (Reply 500 False ErroInternoValidar,
       \<lparr>keys = [exIssued\<lparr>used := True, usedAt := Some 1002\<rparr>], keysFile = [exIssued]\<rparr>)"
    using exKey_trimmed
    by (simp add: validar_def exIssued_def isExpired_def truthy_num_def saveKeys_def Let_def)
  have d: "fst (validar (Some exKey) 1003 1004 True
      \<lparr>keys = [exIssued\<lparr>used := True, usedAt := Some 1002\<rparr>], keysFile = [exIssued]\<rparr>) =
      Reply 200 False KeyJaUtilizada"
    using exKey_trimmed by (simp add: validar_def exIssued_def Let_def)
  show ?thesis
    unfolding run_collision r1 c using a b d by (simp add: run_collision(3))
qed

text \<open>
  C2, amended. In every state reached from the empty store by issues, redemptions and
  sweeps in which no two issues that stored a record read the same clock value and drew
  the same random bytes, for every key record that is unused and unexpired, redeeming its
  id once returns valid when the write to the file succeeds and 500 when it fails, and
  redeeming the same id again returns "already used" and changes nothing, whenever it
  happens and whether or not its write would succeed. In particular this holds for the key
  that a successful issue, the last step of the run, returns, redeemed within 24 hours of
  its \<open>createdAt\<close>. So a key is redeemed with success at most once, and exactly once when
  the first write succeeds. Here unexpired is the handler's own test.
\<close>

theorem redeem_exactly_once:
  assumes "distinct (draws cfg es empty_store)"
  shows
    "(\<forall>r\<in>set (keys (run cfg es empty_store)).
        \<not> used r \<and> \<not> isExpired t1 r \<longrightarrow>
        fst (validar (Some (key r)) t1 t2 io (run cfg es empty_store)) =
          (if io then Reply 200 True KeyValida else Reply 500 False ErroInternoValidar) \<and>
        validar (Some (key r)) t3 t4 io'
            (snd (validar (Some (key r)) t1 t2 io (run cfg es empty_store))) =
          (Reply 200 False KeyJaUtilizada,
           snd (validar (Some (key r)) t1 t2 io (run cfg es empty_store)))) \<and>
     (\<forall>es0 body env k sl.
        es = es0 @ [Gerar body env] \<and>
        fst (gerar cfg body env (run cfg es0 empty_store)) = Success k sl \<and>
        t1 - createdClock env \<le> 24 * 60 * 60 * 1000 \<longrightarrow>
        fst (validar (Some k) t1 t2 io (run cfg es empty_store)) =
          (if io then Reply 200 True KeyValida else Reply 500 False ErroInternoValidar) \<and>
        validar (Some k) t3 t4 io' (snd (validar (Some k) t1 t2 io (run cfg es empty_store))) =
          (Reply 200 False KeyJaUtilizada,
           snd (validar (Some k) t1 t2 io (run cfg es empty_store))))"
proof -
  let ?s = "run cfg es empty_store"
  note d = reachable_ids(1) [OF assms]
  note w = reachable_ids(2) [OF assms]
  have main: "fst (validar (Some (key r)) t1 t2 io ?s) =
          (if io then Reply 200 True KeyValida else Reply 500 False ErroInternoValidar) \<and>
        validar (Some (key r)) t3 t4 io' (snd (validar (Some (key r)) t1 t2 io ?s)) =
          (Reply 200 False KeyJaUtilizada, snd (validar (Some (key r)) t1 t2 io ?s))"
    if r: "r \<in> set (keys ?s)" and u: "\<not> used r" and e: "\<not> isExpired t1 r" for r
  proof -
    from w r have "key r \<noteq> []" "trim (key r) = key r" by simp_all
    with d r show ?thesis using u e by (rule redeem_twice_io)
  qed
  show ?thesis
  proof (rule conjI)
    show "\<forall>r\<in>set (keys ?s).
        \<not> used r \<and> \<not> isExpired t1 r \<longrightarrow>
        fst (validar (Some (key r)) t1 t2 io ?s) =
          (if io then Reply 200 True KeyValida else Reply 500 False ErroInternoValidar) \<and>
        validar (Some (key r)) t3 t4 io' (snd (validar (Some (key r)) t1 t2 io ?s)) =
          (Reply 200 False KeyJaUtilizada, snd (validar (Some (key r)) t1 t2 io ?s))"
      using main by blast
  next
    show "\<forall>es0 body env k sl.
        es = es0 @ [Gerar body env] \<and>
        fst (gerar cfg body env (run cfg es0 empty_store)) = Success k sl \<and>
        t1 - createdClock env \<le> 24 * 60 * 60 * 1000 \<longrightarrow>
        fst (validar (Some k) t1 t2 io ?s) =
          (if io then Reply 200 True KeyValida else Reply 500 False ErroInternoValidar) \<and>
        validar (Some k) t3 t4 io' (snd (validar (Some k) t1 t2 io ?s)) =
          (Reply 200 False KeyJaUtilizada, snd (validar (Some k) t1 t2 io ?s))"
    proof (intro allI impI)
      fix es0 body env k sl
      assume a: "es = es0 @ [Gerar body env] \<and>
        fst (gerar cfg body env (run cfg es0 empty_store)) = Success k sl \<and>
        t1 - createdClock env \<le> 24 * 60 * 60 * 1000"
      let ?before = "run cfg es0 empty_store"
      from a have es: "es = es0 @ [Gerar body env]" by simp
      have "run cfg (es0 @ [Gerar body env]) empty_store = snd (gerar cfg body env ?before)"
        by (simp add: run_snoc)
      then have s: "?s = snd (gerar cfg body env ?before)" by (simp only: es)
      from a have f: "fst (gerar cfg body env ?before) = Success k sl" by simp
      have "gerar cfg body env ?before = (Success k sl, ?s)"
        unfolding s using f by (simp add: prod_eq_iff)
      from gerar_Success [OF this] obtain ol where
        ks: "keys ?s = keys ?before @ [\<lparr>key = k, used = False, createdAt = Some (createdClock env),
                    usedAt = None, shortLink = Some sl, originalLink = ol\<rparr>]"
        by blast
      let ?r = "\<lparr>key = k, used = False, createdAt = Some (createdClock env),
                    usedAt = None, shortLink = Some sl, originalLink = ol\<rparr>"
      have r: "?r \<in> set (keys ?s)" unfolding ks by simp
      have u: "\<not> used ?r" by simp
      have e: "\<not> isExpired t1 ?r" using a by (simp add: isExpired_def)
      from main [OF r u e]
      show "fst (validar (Some k) t1 t2 io ?s) =
          (if io then Reply 200 True KeyValida else Reply 500 False ErroInternoValidar) \<and>
        validar (Some k) t3 t4 io' (snd (validar (Some k) t1 t2 io ?s)) =
          (Reply 200 False KeyJaUtilizada, snd (validar (Some k) t1 t2 io ?s))"
        by simp
    qed
  qed
qed

theorem redeem_exactly_once_witness:
  "distinct (draws exCfg [Gerar exBody exEnv, Gerar exBody exEnv2] empty_store) \<and>
   exIssued2 \<in> set (keys (run exCfg [Gerar exBody exEnv, Gerar exBody exEnv2] empty_store)) \<and>
   \<not> used exIssued2 \<and> \<not> isExpired 1002 exIssued2 \<and>
   fst (validar (Some (key exIssued2)) 1002 1003 True
      (run exCfg [Gerar exBody exEnv, Gerar exBody exEnv2] empty_store)) = Reply 200 True KeyValida \<and>
   validar (Some (key exIssued2)) 1004 1005 True
      (snd (validar (Some (key exIssued2)) 1002 1003 True
        (run exCfg [Gerar exBody exEnv, Gerar exBody exEnv2] empty_store))) =
     (Reply 200 False KeyJaUtilizada,
      snd (validar (Some (key exIssued2)) 1002 1003 True
        (run exCfg [Gerar exBody exEnv, Gerar exBody exEnv2] empty_store))) \<and>
   fst (gerar exCfg exBody exEnv2 (run exCfg [Gerar exBody exEnv] empty_store)) =
     Success exKey2 ''https://ufly.monetizzy.com/abc'' \<and>
   fst (validar (Some exKey2) 1002 1003 True
      (run exCfg [Gerar exBody exEnv, Gerar exBody exEnv2] empty_store)) = Reply 200 True KeyValida \<and>
   fst (validar (Some (key exIssued2)) 1002 1003 False
      (run exCfg [Gerar exBody exEnv, Gerar exBody exEnv2] empty_store)) =
     Reply 500 False ErroInternoValidar"
proof -
  let ?es = "[Gerar exBody exEnv, Gerar exBody exEnv2]"
  have d: "distinct (draws exCfg ?es empty_store)"
    unfolding draws_two_issues by simp
  have r: "exIssued2 \<in> set (keys (run exCfg ?es empty_store))"
    unfolding run_two_issues by simp
  have h: "\<not> used exIssued2 \<and> \<not> isExpired 1002 exIssued2"
    by (simp add: exIssued2_def isExpired_def truthy_num_def)
  have r1: "run exCfg [Gerar exBody exEnv] empty_store = \<lparr>keys = [exIssued], keysFile = [exIssued]\<rparr>"
    by (simp only: run.simps step_example1)
  have g: "?es = [Gerar exBody exEnv] @ [Gerar exBody exEnv2] \<and>
      fst (gerar exCfg exBody exEnv2 (run exCfg [Gerar exBody exEnv] empty_store)) =
        Success exKey2 ''https://ufly.monetizzy.com/abc'' \<and>
      1002 - createdClock exEnv2 \<le> 24 * 60 * 60 * 1000"
    unfolding r1 gerar_example2 by (simp add: exEnv2_def)
  note t = redeem_exactly_once [OF d, where ?t1.0 = 1002 and ?t2.0 = 1003 and io = True
      and ?t3.0 = 1004 and ?t4.0 = 1005 and io' = True]
  from t [THEN conjunct1, rule_format, OF r h]
  have a: "fst (validar (Some (key exIssued2)) 1002 1003 True (run exCfg ?es empty_store)) =
      Reply 200 True KeyValida"
    "validar (Some (key exIssued2)) 1004 1005 True
      (snd (validar (Some (key exIssued2)) 1002 1003 True (run exCfg ?es empty_store))) =
     (Reply 200 False KeyJaUtilizada,
      snd (validar (Some (key exIssued2)) 1002 1003 True (run exCfg ?es empty_store)))"
    by (simp_all only: if_True)
  from t [THEN conjunct2, rule_format, OF g]
  have b: "fst (validar (Some exKey2) 1002 1003 True (run exCfg ?es empty_store)) =
      Reply 200 True KeyValida"
    by (simp only: if_True)
  from g have g': "fst (gerar exCfg exBody exEnv2 (run exCfg [Gerar exBody exEnv] empty_store)) =
        Success exKey2 ''https://ufly.monetizzy.com/abc''" by blast
  from redeem_exactly_once [OF d, where ?t1.0 = 1002 and ?t2.0 = 1003 and io = False
      and ?t3.0 = 1004 and ?t4.0 = 1005 and io' = True, THEN conjunct1, rule_format, OF r h]
  have c: "fst (validar (Some (key exIssued2)) 1002 1003 False (run exCfg ?es empty_store)) =
      Reply 500 False ErroInternoValidar"
    by (simp only: if_False)
  from d r h a b c g' show ?thesis by blast
qed

text \<open>
  C10, as stated, fails for a key made of white space only. The test \<open>!key\<close> comes before
  the trimming: two spaces pass it and are looked up as the empty id (404 when no record
  has it), while the trimmed key, the empty string, is refused with 400.
\<close>

theorem validar_blank_key_differs:
  "trim ''  '' = [] \<and>
   validar (Some ''  '') 5 6 True empty_store = (Reply 404 False KeyNaoEncontrada, empty_store) \<and>
   validar (Some (trim ''  '')) 5 6 True empty_store = (Reply 400 False KeyObrigatoria, empty_store)"
  by (simp add: validar_def trim_def isWhiteSpace_def empty_store_def)

text \<open>
  C10, amended. For every supplied key whose trimmed form is not empty, \<open>POST /validar\<close>
  gives the same reply and the same state for the key and for the trimmed key; so two
  such keys with the same trimmed form are redeemed alike.
\<close>

theorem validar_trims:
  assumes "trim k \<noteq> []"
  shows "validar (Some k) t1 t2 io s = validar (Some (trim k)) t1 t2 io s \<and>
         (\<forall>k'. trim k' = trim k \<longrightarrow> validar (Some k') t1 t2 io s = validar (Some k) t1 t2 io s)"
proof -
  have eq: "validar (Some a) t1 t2 io s = validar (Some (trim a)) t1 t2 io s" if "trim a \<noteq> []" for a
  proof -
    from that have "a \<noteq> []" by (rule trim_neq_NilD)
    with that show ?thesis by (simp add: validar_def trim_idem)
  qed
  show ?thesis
  proof (intro conjI allI impI)
    show "validar (Some k) t1 t2 io s = validar (Some (trim k)) t1 t2 io s"
      using assms by (rule eq)
  next
    fix k' assume k': "trim k' = trim k"
    with assms have "trim k' \<noteq> []" by simp
    then have "validar (Some k') t1 t2 io s = validar (Some (trim k')) t1 t2 io s" by (rule eq)
    also have "\<dots> = validar (Some (trim k)) t1 t2 io s" by (simp add: k')
    also have "\<dots> = validar (Some k) t1 t2 io s" using assms by (simp add: eq)
    finally show "validar (Some k') t1 t2 io s = validar (Some k) t1 t2 io s" .
  qed
qed

theorem validar_trims_witness:
  "trim '' k-new  '' \<noteq> [] \<and>
   validar (Some '' k-new  '') 90000001 90000002 True exStore =
     validar (Some ''k-new'') 90000001 90000002 True exStore"
proof -
  have t: "trim '' k-new  '' = ''k-new''"
    by (simp add: trim_def isWhiteSpace_def)
  then have "trim '' k-new  '' \<noteq> []" by simp
  from validar_trims [OF this, of 90000001 90000002 True exStore] show ?thesis
    by (simp add: t)
qed

section \<open>The sweep\<close>

text \<open>
  C3 says that the sweep removes an unused record only when its age is strictly greater
  than 24 hours. \<open>cleanExpiredKeys\<close> keeps an unused record only if \<open>createdAt > now - 24h\<close>,
  so it also removes the record whose age is exactly 24 hours, which \<open>POST /validar\<close>
  (whose test is \<open>now - createdAt > 24h\<close>) still redeems at that same instant. Run on the
  record created at time 1000, at time 86401000: the sweep empties the array and writes
  the file, and the redemption is valid.
\<close>

theorem sweep_removes_key_aged_exactly_24h:
  "createdAt exOld = Some 1000 \<and> \<not> used exOld \<and> (86401000 :: int) - 1000 = 24 * 60 * 60 * 1000 \<and>
   cleanExpiredKeys 86401000 True \<lparr>keys = [exOld], keysFile = [exOld]\<rparr> =
     \<lparr>keys = [], keysFile = []\<rparr> \<and>
   fst (validar (Some ''k-old'') 86401000 86401000 True \<lparr>keys = [exOld], keysFile = [exOld]\<rparr>) =
     Reply 200 True KeyValida"
  by (simp add: cleanExpiredKeys_def keepKey_def truthy_num_def saveKeys_def exOld_def
      validar_def trim_def isWhiteSpace_def isExpired_def Let_def)

section \<open>Issuing a key\<close>

text \<open>
  C5. When the call to the shortener fails (it rejects, or its answer has no
  \<open>shortened_url\<close>), \<open>POST /gerar\<close> leaves the array and the file as they were, whatever the
  request; the state changes only when the call has resolved with a \<open>shortened_url\<close>. For a
  request that passes the checks of the handler, a rejection with code \<open>ECONNABORTED\<close> (a
  timeout) gives 408, otherwise a rejection with response status 401 gives 401, any other
  rejection gives 500, and an answer without \<open>shortened_url\<close> gives 400.
\<close>

theorem gerar_gateway_failure:
  "((\<forall>u. axios_post env = Resolved (Some u) \<longrightarrow> u = []) \<longrightarrow> snd (gerar cfg body env s) = s) \<and>
   (snd (gerar cfg body env s) \<noteq> s \<longrightarrow> (\<exists>u. u \<noteq> [] \<and> axios_post env = Resolved (Some u))) \<and>
   (monetizzyToken body = Some (MONETIZZY_TOKEN cfg) \<and> MONETIZZY_TOKEN cfg \<noteq> [] \<and>
    link body = Some l \<and> l \<noteq> [] \<and> isValidUrl cfg l \<longrightarrow>
      (\<forall>c st. axios_post env = Rejected c st \<longrightarrow>
         gerar cfg body env s =
           (if c = Some ''ECONNABORTED'' then Failure 408 TimeoutMonetizzy
            else if st = Some 401 then Failure 401 TokenMonetizzyExpirado
            else Failure 500 ErroInternoGerar, s)) \<and>
      (axios_post env = Resolved None \<or> axios_post env = Resolved (Some []) \<longrightarrow>
         gerar cfg body env s = (Failure 400 ErroLinkEncurtado, s)))"
proof (intro conjI impI)
  assume "\<forall>u. axios_post env = Resolved (Some u) \<longrightarrow> u = []"
  then show "snd (gerar cfg body env s) = s" by (rule gerar_unchanged)
next
  assume "snd (gerar cfg body env s) \<noteq> s"
  then have "\<not> (\<forall>u. axios_post env = Resolved (Some u) \<longrightarrow> u = [])"
    using gerar_unchanged [of env cfg body s] by blast
  then show "\<exists>u. u \<noteq> [] \<and> axios_post env = Resolved (Some u)" by blast
next
  assume a: "monetizzyToken body = Some (MONETIZZY_TOKEN cfg) \<and> MONETIZZY_TOKEN cfg \<noteq> [] \<and>
    link body = Some l \<and> l \<noteq> [] \<and> isValidUrl cfg l"
  then have g: "monetizzyToken body = Some (MONETIZZY_TOKEN cfg)" "MONETIZZY_TOKEN cfg \<noteq> []"
    "link body = Some l" "l \<noteq> []" "isValidUrl cfg l"
    by simp_all
  show "\<forall>c st. axios_post env = Rejected c st \<longrightarrow>
         gerar cfg body env s =
           (if c = Some ''ECONNABORTED'' then Failure 408 TimeoutMonetizzy
            else if st = Some 401 then Failure 401 TokenMonetizzyExpirado
            else Failure 500 ErroInternoGerar, s)"
    by (simp add: gerar_past_checks [OF g] catch_gerar_def)
next
  assume a: "monetizzyToken body = Some (MONETIZZY_TOKEN cfg) \<and> MONETIZZY_TOKEN cfg \<noteq> [] \<and>
    link body = Some l \<and> l \<noteq> [] \<and> isValidUrl cfg l"
  then have g: "monetizzyToken body = Some (MONETIZZY_TOKEN cfg)" "MONETIZZY_TOKEN cfg \<noteq> []"
    "link body = Some l" "l \<noteq> []" "isValidUrl cfg l"
    by simp_all
  assume "axios_post env = Resolved None \<or> axios_post env = Resolved (Some [])"
  then show "gerar cfg body env s = (Failure 400 ErroLinkEncurtado, s)"
    by (auto simp: gerar_past_checks [OF g])
qed

theorem gerar_gateway_failure_witness:
  "gerar exCfg exBody (exEnv\<lparr>axios_post := Rejected (Some ''ECONNABORTED'') None\<rparr>) exStore =
     (Failure 408 TimeoutMonetizzy, exStore) \<and>
   gerar exCfg exBody (exEnv\<lparr>axios_post := Rejected (Some ''ERR_BAD_REQUEST'') (Some 401)\<rparr>) exStore =
     (Failure 401 TokenMonetizzyExpirado, exStore) \<and>
   gerar exCfg exBody (exEnv\<lparr>axios_post := Rejected (Some ''ENOTFOUND'') None\<rparr>) exStore =
     (Failure 500 ErroInternoGerar, exStore) \<and>
   gerar exCfg exBody (exEnv\<lparr>axios_post := Resolved None\<rparr>) exStore =
     (Failure 400 ErroLinkEncurtado, exStore)"
proof -
  have v: "monetizzyToken exBody = Some (MONETIZZY_TOKEN exCfg) \<and> MONETIZZY_TOKEN exCfg \<noteq> [] \<and>
      link exBody = Some ''https://example.com/a'' \<and> ''https://example.com/a'' \<noteq> [] \<and>
      isValidUrl exCfg ''https://example.com/a''"
    by (simp add: exCfg_def exBody_def)
  note t = gerar_gateway_failure [where cfg = exCfg and body = exBody and s = exStore
      and l = "''https://example.com/a''", THEN conjunct2, THEN conjunct2, rule_format, OF v]
  have 1: "gerar exCfg exBody (exEnv\<lparr>axios_post := Rejected (Some ''ECONNABORTED'') None\<rparr>) exStore =
     (Failure 408 TimeoutMonetizzy, exStore)"
    using t [of "exEnv\<lparr>axios_post := Rejected (Some ''ECONNABORTED'') None\<rparr>", THEN conjunct1,
        rule_format, of "Some ''ECONNABORTED''" None]
    by simp
  have 2: "gerar exCfg exBody (exEnv\<lparr>axios_post := Rejected (Some ''ERR_BAD_REQUEST'') (Some 401)\<rparr>) exStore =
     (Failure 401 TokenMonetizzyExpirado, exStore)"
    using t [of "exEnv\<lparr>axios_post := Rejected (Some ''ERR_BAD_REQUEST'') (Some 401)\<rparr>", THEN conjunct1,
        rule_format, of "Some ''ERR_BAD_REQUEST''" "Some 401"]
    by simp
  have 3: "gerar exCfg exBody (exEnv\<lparr>axios_post := Rejected (Some ''ENOTFOUND'') None\<rparr>) exStore =
     (Failure 500 ErroInternoGerar, exStore)"
    using t [of "exEnv\<lparr>axios_post := Rejected (Some ''ENOTFOUND'') None\<rparr>", THEN conjunct1,
        rule_format, of "Some ''ENOTFOUND''" None]
    by simp
  have 4: "gerar exCfg exBody (exEnv\<lparr>axios_post := Resolved None\<rparr>) exStore =
     (Failure 400 ErroLinkEncurtado, exStore)"
    using t [of "exEnv\<lparr>axios_post := Resolved None\<rparr>", THEN conjunct2]
    by simp
  from 1 2 3 4 show ?thesis by simp
qed

text \<open>
  C6. When the write to the file fails, neither \<open>POST /gerar\<close> nor \<open>POST /validar\<close> replies
  with success; a success reply of either means that the write succeeded and that the
  file holds the array as it is after the operation.
\<close>

theorem save_failure_no_success:
  "(\<not> saveOk env \<longrightarrow> (\<forall>k sl. fst (gerar cfg body env s) \<noteq> Success k sl)) \<and>
   (\<forall>k sl. fst (gerar cfg body env s) = Success k sl \<longrightarrow>
      saveOk env \<and> keysFile (snd (gerar cfg body env s)) = keys (snd (gerar cfg body env s))) \<and>
   (\<not> io \<longrightarrow> (\<forall>st m. fst (validar bk t1 t2 io s) \<noteq> Reply st True m)) \<and>
   (\<forall>st m. fst (validar bk t1 t2 io s) = Reply st True m \<longrightarrow>
      io \<and> keysFile (snd (validar bk t1 t2 io s)) = keys (snd (validar bk t1 t2 io s)))"
proof -
  have g: "saveOk env \<and> keysFile (snd (gerar cfg body env s)) = keys (snd (gerar cfg body env s))"
    if "fst (gerar cfg body env s) = Success k sl" for k sl
  proof -
    from that have "gerar cfg body env s = (Success k sl, snd (gerar cfg body env s))"
      by (simp add: prod_eq_iff)
    from gerar_Success [OF this] show ?thesis by simp
  qed
  have v: "io \<and> keysFile (snd (validar bk t1 t2 io s)) = keys (snd (validar bk t1 t2 io s))"
    if "fst (validar bk t1 t2 io s) = Reply st True m" for st m
    using that by (rule validar_valid)
  from g v show ?thesis by blast
qed

theorem save_failure_no_success_witness:
  "\<not> saveOk (exEnv\<lparr>saveOk := False\<rparr>) \<and>
   fst (gerar exCfg exBody (exEnv\<lparr>saveOk := False\<rparr>) exStore) = Failure 500 ErroInternoGerar \<and>
   fst (validar (Some ''k-new'') 90000001 90000002 False exStore) = Reply 500 False ErroInternoValidar \<and>
   fst (validar (Some ''k-new'') 90000001 90000002 True exStore) = Reply 200 True KeyValida \<and>
   keysFile (snd (validar (Some ''k-new'') 90000001 90000002 True exStore)) =
     keys (snd (validar (Some ''k-new'') 90000001 90000002 True exStore))"
proof -
  have 1: "\<not> saveOk (exEnv\<lparr>saveOk := False\<rparr>)" by simp
  have 2: "fst (gerar exCfg exBody (exEnv\<lparr>saveOk := False\<rparr>) exStore) = Failure 500 ErroInternoGerar"
    by (simp add: gerar_def exCfg_def exBody_def exEnv_def truthy_str_def
        saveKeys_def Let_def catch_gerar_def)
  have 3: "fst (validar (Some ''k-new'') 90000001 90000002 False exStore) = Reply 500 False ErroInternoValidar"
    by (simp add: validar_def exStore_def exUsed_def exOld_def exFresh_def trim_def isWhiteSpace_def
        isExpired_def truthy_num_def saveKeys_def Let_def)
  have 4: "fst (validar (Some ''k-new'') 90000001 90000002 True exStore) = Reply 200 True KeyValida"
    by (simp add: validar_def exStore_def exUsed_def exOld_def exFresh_def trim_def isWhiteSpace_def
        isExpired_def truthy_num_def saveKeys_def Let_def)
  from save_failure_no_success [where env = "exEnv\<lparr>saveOk := False\<rparr>" and cfg = exCfg
      and body = exBody and s = exStore and io = True and bk = "Some ''k-new''"
      and ?t1.0 = 90000001 and ?t2.0 = 90000002] 1 2 3 4
  show ?thesis by simp
qed

section \<open>Invariants of the collection\<close>

text \<open>
  C4, as stated, fails: nothing compares a generated key with the keys already stored.
  Two issues that read the same clock value and draw the same six random bytes store the
  same id twice.
\<close>

theorem issue_twice_same_id:
  "\<not> distinct (map key (keys (run exCfg [Gerar exBody exEnv, Gerar exBody exEnv] empty_store)))"
  by (simp add: gerar_def exCfg_def exBody_def exEnv_def empty_store_def truthy_str_def
      saveKeys_def Let_def)

text \<open>
  C4, amended. In every state reached from the empty store by issues, redemptions and
  sweeps in which no two issues that stored a record read the same clock value and drew
  the same random bytes, no two records have the same id.
\<close>

theorem ids_unique_when_draws_differ:
  assumes "distinct (draws cfg es empty_store)"
  shows "distinct (map key (keys (run cfg es empty_store)))"
  using assms by (rule reachable_ids(1))

theorem ids_unique_when_draws_differ_witness:
  "distinct (draws exCfg [Gerar exBody exEnv, Gerar exBody exEnv2] empty_store) \<and>
   distinct (map key (keys (run exCfg [Gerar exBody exEnv, Gerar exBody exEnv2] empty_store))) \<and>
   length (keys (run exCfg [Gerar exBody exEnv, Gerar exBody exEnv2] empty_store)) = 2"
proof -
  have d: "distinct (draws exCfg [Gerar exBody exEnv, Gerar exBody exEnv2] empty_store)"
    unfolding draws_two_issues by simp
  have l: "length (keys (run exCfg [Gerar exBody exEnv, Gerar exBody exEnv2] empty_store)) = 2"
    unfolding run_two_issues by simp
  from ids_unique_when_draws_differ [OF d] d l show ?thesis by blast
qed

text \<open>
  C8. A record that is in the array with \<open>used = true\<close> is still in the array, unchanged,
  after any single step (issue, redemption or sweep), and so after any run of steps. This
  holds from every state, reachable or not.
\<close>

theorem used_records_stay:
  assumes "r \<in> set (keys s)" "used r"
  shows "r \<in> set (keys (step cfg e s)) \<and> r \<in> set (keys (run cfg es s))"
proof
  from assms show "r \<in> set (keys (step cfg e s))" by (rule used_stays_step)
next
  from assms(1) show "r \<in> set (keys (run cfg es s))"
  proof (induction es arbitrary: s)
    case Nil
    then show ?case by simp
  next
    case (Cons e es)
    from Cons.prems assms(2) have "r \<in> set (keys (step cfg e s))" by (rule used_stays_step)
    then show ?case by (simp add: Cons.IH)
  qed
qed

theorem used_records_stay_witness:
  "exUsed \<in> set (keys exStore) \<and> used exUsed \<and>
   exUsed \<in> set (keys (step exCfg (Sweep 90000001 True) exStore)) \<and>
   exUsed \<in> set (keys (run exCfg
      [Validar (Some ''k-used'') 90000001 90000002 True, Sweep 900000000 True, Gerar exBody exEnv]
      exStore))"
proof -
  have h: "exUsed \<in> set (keys exStore)" "used exUsed"
    by (simp_all add: exStore_def exUsed_def)
  from h used_records_stay [OF h, of exCfg "Sweep 90000001 True"
      "[Validar (Some ''k-used'') 90000001 90000002 True, Sweep 900000000 True, Gerar exBody exEnv]"]
  show ?thesis by blast
qed

text \<open>
  C9. In every state reached from the empty store by issues, redemptions and sweeps
  whose clock readings never decrease, every record with \<open>used = false\<close> has no \<open>usedAt\<close>,
  and every record with \<open>used = true\<close> has a \<open>createdAt\<close> and a \<open>usedAt\<close> with
  \<open>createdAt \<le> usedAt\<close>.
\<close>

theorem usedAt_invariant:
  assumes "sorted (concat (map clock_reads es))"
  shows "\<forall>r\<in>set (keys (run cfg es empty_store)).
           (\<not> used r \<longrightarrow> usedAt r = None) \<and>
           (used r \<longrightarrow> (\<exists>c u. createdAt r = Some c \<and> usedAt r = Some u \<and> c \<le> u))"
proof
  fix r assume r: "r \<in> set (keys (run cfg es empty_store))"
  have "\<forall>r\<in>set (keys (run cfg es empty_store)). stamped [] r"
    using assms by (intro stamped_run) (simp_all add: empty_store_def)
  with r have "stamped [] r" by blast
  then show "(\<not> used r \<longrightarrow> usedAt r = None) \<and>
           (used r \<longrightarrow> (\<exists>c u. createdAt r = Some c \<and> usedAt r = Some u \<and> c \<le> u))"
    by (auto simp: stamped_def split: option.splits if_splits)
qed

theorem usedAt_invariant_witness:
  "sorted (concat (map clock_reads
      [Gerar exBody exEnv, Validar (Some exKey) 1001 1002 True, Sweep 90000000 True])) \<and>
   keys (run exCfg [Gerar exBody exEnv, Validar (Some exKey) 1001 1002 True, Sweep 90000000 True]
      empty_store) = [exIssued\<lparr>used := True, usedAt := Some 1002\<rparr>] \<and>
   (\<exists>c u. createdAt (exIssued\<lparr>used := True, usedAt := Some 1002\<rparr>) = Some c \<and>
          usedAt (exIssued\<lparr>used := True, usedAt := Some 1002\<rparr>) = Some u \<and> c \<le> u)"
proof -
  let ?es = "[Gerar exBody exEnv, Validar (Some exKey) 1001 1002 True, Sweep 90000000 True]"
  have s: "sorted (concat (map clock_reads ?es))"
    by (simp add: exEnv_def)
  have k: "keys (run exCfg ?es empty_store) = [exIssued\<lparr>used := True, usedAt := Some 1002\<rparr>]"
    unfolding run_example by simp
  then have m: "exIssued\<lparr>used := True, usedAt := Some 1002\<rparr> \<in> set (keys (run exCfg ?es empty_store))"
    by simp
  from usedAt_invariant [OF s, of exCfg, rule_format, OF m] s k show ?thesis
    by (simp add: exIssued_def)
qed

section \<open>The status query\<close>

text \<open>
  C7. For every collection, the status query returns \<open>total\<close> equal to the number of
  records, \<open>used\<close> equal to the number of records with \<open>used = true\<close>, and \<open>available\<close> equal
  to \<open>total\<close> minus \<open>used\<close>. \<open>available\<close> is the number of all unused records, whatever
  their age (the query reads no clock, so an expired unused record is counted), and the
  query leaves the state as it was.
\<close>

theorem status_counts:
  "total (fst (status s)) = length (keys s) \<and>
   usedCount (fst (status s)) = length (filter used (keys s)) \<and>
   available (fst (status s)) = total (fst (status s)) - usedCount (fst (status s)) \<and>
   usedCount (fst (status s)) + available (fst (status s)) = total (fst (status s)) \<and>
   available (fst (status s)) = length (filter (\<lambda>k. \<not> used k) (keys s)) \<and>
   snd (status s) = s"
proof -
  have "length (filter used (keys s)) + length (filter (\<lambda>k. \<not> used k) (keys s)) = length (keys s)"
    by (rule sum_length_filter_compl)
  then show ?thesis
    by (simp add: status_def)
qed

end
